theory Spec2Isabelle
  imports Complex_Main "HOL-Library.Log_Nat"
begin

section \<open>Data model\<close>

text \<open>
  The image-to-grid pipeline of \<^verbatim>\<open>TestPage.jsx\<close>, method \<^verbatim>\<open>processImage\<close>.
  A rectangle is what \<^verbatim>\<open>cv.boundingRect\<close> returns; its fields are 32-bit integers held
  in JavaScript numbers, which are doubles. Sums and differences of such values are
  exact in doubles, and the rounded quotient of two such differences is the rounded
  exact quotient: the model computes them with \<open>int\<close> and \<open>rat\<close>. The products of the
  region filter can pass \<open>2 ^ 53\<close> and are rounded: the model rounds them, and the
  tenth of the image area, with \<open>to_double\<close>.
\<close>

record rect =
  rect_x :: int
  rect_y :: int
  rect_width :: int
  rect_height :: int

text \<open>An entry of the array \<^verbatim>\<open>values\<close>: the object \<^verbatim>\<open>{ x, y, v }\<close>.\<close>

record extracted_value =
  val_x :: int
  val_y :: int
  val_v :: string

text \<open>
  An element of the arrays \<^verbatim>\<open>xs\<close> and \<^verbatim>\<open>ys\<close>: a number, or \<^verbatim>\<open>undefined\<close>
  (what \<^verbatim>\<open>uniq_x[0]\<close> reads from an empty array).
\<close>

datatype jsval = Undefined | Number int

text \<open>
  The value of \<^verbatim>\<open>num_steps\<close>: the result of \<^verbatim>\<open>Math.round(delta / min_delta_x)\<close>,
  which is not finite when the divisor is zero.
\<close>

datatype jsnum = Finite int | PosInfinity | NegInfinity | NaN

datatype js_error = TypeError


section \<open>Doubles\<close>

text \<open>
  \<open>pow2 e\<close> is \<open>2\<close> to the power \<open>e\<close>, and \<open>exponent q\<close>, for a positive \<open>q\<close>, the
  \<open>e\<close> with \<open>2 ^ e \<le> q < 2 ^ (e + 1)\<close>.
\<close>

definition pow2 :: "int \<Rightarrow> rat" where
  "pow2 e = (if 0 \<le> e then 2 ^ nat e else 1 / 2 ^ nat (- e))"

definition exponent :: "rat \<Rightarrow> int" where
  "exponent q = (if 1 \<le> q then bitlen \<lfloor>q\<rfloor> - 1 else - bitlen (\<lceil>1 / q\<rceil> - 1))"



section \<open>Region filter (lines 70 to 91)\<close>






section \<open>Overlap resolver and value extractor (lines 123 to 159)\<close>

definition overlap :: "rect \<Rightarrow> rect \<Rightarrow> bool" where
  "overlap r1 r2 =
     (\<not> (rect_x r1 + rect_width r1 < rect_x r2 \<or>
         rect_x r2 + rect_width r2 < rect_x r1 \<or>
         rect_y r1 + rect_height r1 < rect_y r2 \<or>
         rect_y r2 + rect_height r2 < rect_y r1))"

text \<open>The inner loop \<^verbatim>\<open>for (let j = 0; j < i; ++j)\<close>, which sets \<^verbatim>\<open>skip\<close>.\<close>

function skip_loop :: "rect list \<Rightarrow> nat \<Rightarrow> nat \<Rightarrow> bool \<Rightarrow> bool" where
  "skip_loop rectangles i j skip =
     (if j < i then
        skip_loop rectangles i (j + 1)
          (if overlap (rectangles ! i) (rectangles ! j) then True else skip)
      else skip)"
  by pat_completeness auto
termination
  by (relation "measure (\<lambda>(rectangles, i, j, skip). i - j)") auto

declare skip_loop.simps [simp del]

definition is_digit :: "char \<Rightarrow> bool" where
  "is_digit c = (c \<in> set ''0123456789'')"

text \<open>
  \<^verbatim>\<open>text.match(/\d+/)\<close>: \<open>None\<close> is \<^verbatim>\<open>null\<close>, \<open>Some m\<close> the array whose element 0 is
  \<open>m\<close>, the leftmost match, as long as it can be.
\<close>

definition match_digits :: "string \<Rightarrow> string option" where
  "match_digits text =
     (case dropWhile (\<lambda>c. \<not> is_digit c) text of
        [] \<Rightarrow> None
      | c # cs \<Rightarrow> Some (takeWhile is_digit (c # cs)))"

text \<open>\<^verbatim>\<open>(text.match(/\d+/) || [])[0] || "?"\<close>: the empty string is falsy.\<close>

definition extract_v :: "string \<Rightarrow> string" where
  "extract_v text =
     (case match_digits text of
        None \<Rightarrow> ''?''
      | Some m \<Rightarrow> if m = [] then ''?'' else m)"

text \<open>
  The outer loop. \<open>recognize rect\<close> is the text the OCR worker returns for the crop
  \<^verbatim>\<open>img.roi(rect)\<close> of the image.
\<close>

function values_loop ::
  "(rect \<Rightarrow> string) \<Rightarrow> rect list \<Rightarrow> nat \<Rightarrow> extracted_value list \<Rightarrow> extracted_value list" where
  "values_loop recognize rectangles i vals =
     (if i < length rectangles then
        (let rect = rectangles ! i;
             skip = skip_loop rectangles i 0 False
         in values_loop recognize rectangles (i + 1)
              (if \<not> skip
               then vals @ [\<lparr>val_x = rect_x rect, val_y = rect_y rect,
                              val_v = extract_v (recognize rect)\<rparr>]
               else vals))
      else vals)"
  by pat_completeness auto
termination
  by (relation "measure (\<lambda>(recognize, rectangles, i, vals). length rectangles - i)") auto

declare values_loop.simps [simp del]

definition extract_values :: "(rect \<Rightarrow> string) \<Rightarrow> rect list \<Rightarrow> extracted_value list" where
  "extract_values recognize rectangles = values_loop recognize rectangles 0 []"

section \<open>Grid reconstruction (lines 161 to 225)\<close>

text \<open>\<^verbatim>\<open>Array.prototype.indexOf\<close>: the first index holding the element, or -1.\<close>

fun indexOf_from :: "'a list \<Rightarrow> 'a \<Rightarrow> int \<Rightarrow> int" where
  "indexOf_from [] a k = -1"
| "indexOf_from (b # bs) a k = (if b = a then k else indexOf_from bs a (k + 1))"

definition indexOf :: "'a list \<Rightarrow> 'a \<Rightarrow> int" where
  "indexOf bs a = indexOf_from bs a 0"

text \<open>The loop \<^verbatim>\<open>for (let idx in values)\<close> that collects the distinct positions.\<close>

fun collect_uniq :: "extracted_value list \<Rightarrow> int list \<Rightarrow> int list \<Rightarrow> int list \<times> int list" where
  "collect_uniq [] uniq_x uniq_y = (uniq_x, uniq_y)"
| "collect_uniq (v # vals) uniq_x uniq_y =
     collect_uniq vals
       (if indexOf uniq_x (val_x v) = -1 then uniq_x @ [val_x v] else uniq_x)
       (if indexOf uniq_y (val_y v) = -1 then uniq_y @ [val_y v] else uniq_y)"

text \<open>After \<^verbatim>\<open>uniq_x.sort((a, b) => a - b)\<close>.\<close>

definition uniq_x :: "extracted_value list \<Rightarrow> int list" where
  "uniq_x vals = sort (fst (collect_uniq vals [] []))"

definition uniq_y :: "extracted_value list \<Rightarrow> int list" where
  "uniq_y vals = sort (snd (collect_uniq vals [] []))"

text \<open>\<^verbatim>\<open>Number.MAX_VALUE\<close>, the largest finite double.\<close>

definition MAX_VALUE :: int where
  "MAX_VALUE = (2 ^ 53 - 1) * 2 ^ 971"

function min_delta_loop :: "int list \<Rightarrow> nat \<Rightarrow> int \<Rightarrow> int" where
  "min_delta_loop uniq i min_delta =
     (if i < length uniq then
        (let delta = uniq ! i - uniq ! (i - 1)
         in min_delta_loop uniq (i + 1) (min delta min_delta))
      else min_delta)"
  by pat_completeness auto
termination
  by (relation "measure (\<lambda>(uniq, i, min_delta). length uniq - i)") auto

declare min_delta_loop.simps [simp del]

definition min_delta_of :: "int list \<Rightarrow> int" where
  "min_delta_of uniq = min_delta_loop uniq 1 MAX_VALUE"

text \<open>\<^verbatim>\<open>Math.round\<close>: the nearest integer, a tie going up.\<close>

definition js_round :: "rat \<Rightarrow> int" where
  "js_round q = \<lfloor>q + 1 / 2\<rfloor>"

text \<open>\<^verbatim>\<open>Math.round(delta / min_delta_x)\<close>, with the division by zero of doubles.\<close>

definition round_div :: "int \<Rightarrow> int \<Rightarrow> jsnum" where
  "round_div delta min_delta =
     (if min_delta = 0 then
        (if delta > 0 then PosInfinity else if delta < 0 then NegInfinity else NaN)
      else Finite (js_round (of_int delta / of_int min_delta)))"

fun gt_one :: "jsnum \<Rightarrow> bool" where
  "gt_one (Finite n) = (n > 1)"
| "gt_one PosInfinity = True"
| "gt_one NegInfinity = False"
| "gt_one NaN = False"

fun decrement :: "jsnum \<Rightarrow> jsnum" where
  "decrement (Finite n) = Finite (n - 1)"
| "decrement PosInfinity = PosInfinity"
| "decrement NegInfinity = NegInfinity"
| "decrement NaN = NaN"

text \<open>
  \<^verbatim>\<open>while (num_steps > 1) { xs.push(-1); num_steps--; }\<close>. The loop does not end when
  \<^verbatim>\<open>num_steps\<close> is \<^verbatim>\<open>Infinity\<close>: the result is then \<open>None\<close>.
\<close>

partial_function (option) push_gaps :: "jsnum \<Rightarrow> jsval list \<Rightarrow> jsval list option" where
  "push_gaps num_steps xs =
     (if gt_one num_steps then push_gaps (decrement num_steps) (xs @ [Number (-1)])
      else Some xs)"

declare push_gaps.simps [code]

function axis_loop :: "int list \<Rightarrow> int \<Rightarrow> nat \<Rightarrow> jsval list \<Rightarrow> jsval list option" where
  "axis_loop uniq min_delta i xs =
     (if i < length uniq then
        (let delta = uniq ! i - uniq ! (i - 1)
         in case push_gaps (round_div delta min_delta) xs of
              None \<Rightarrow> None
            | Some xs' \<Rightarrow> axis_loop uniq min_delta (i + 1) (xs' @ [Number (uniq ! i)]))
      else Some xs)"
  by pat_completeness auto
termination
  by (relation "measure (\<lambda>(uniq, min_delta, i, xs). length uniq - i)") auto

declare axis_loop.simps [simp del]

text \<open>\<^verbatim>\<open>uniq_x[0]\<close>.\<close>

definition first_elem :: "int list \<Rightarrow> jsval" where
  "first_elem uniq = (case uniq of [] \<Rightarrow> Undefined | p # _ \<Rightarrow> Number p)"

definition build_axis :: "int list \<Rightarrow> jsval list option" where
  "build_axis uniq = axis_loop uniq (min_delta_of uniq) 1 [first_elem uniq]"

definition xs_of :: "extracted_value list \<Rightarrow> jsval list option" where
  "xs_of vals = build_axis (uniq_x vals)"

definition ys_of :: "extracted_value list \<Rightarrow> jsval list option" where
  "ys_of vals = build_axis (uniq_y vals)"

text \<open>The nested loop that fills \<^verbatim>\<open>arr\<close> with \<^verbatim>\<open>" "\<close>.\<close>

definition blank_grid :: "jsval list \<Rightarrow> jsval list \<Rightarrow> string list list" where
  "blank_grid ys xs = replicate (length ys) (replicate (length xs) '' '')"

text \<open>
  \<^verbatim>\<open>row[x] = s\<close> on an array \<open>row\<close>: a negative \<open>x\<close> names a property, not an element,
  and leaves the elements as they are; an index past the end extends the array with
  holes, which \<^verbatim>\<open>join\<close> prints as empty strings.
\<close>

definition store_elem :: "string list \<Rightarrow> int \<Rightarrow> string \<Rightarrow> string list" where
  "store_elem row x s =
     (if x < 0 then row
      else if nat x < length row then row[nat x := s]
      else row @ replicate (nat x - length row) [] @ [s])"

text \<open>\<^verbatim>\<open>arr[y][x] = s\<close>: \<^verbatim>\<open>arr[y]\<close> is \<^verbatim>\<open>undefined\<close> outside the array, and the store throws.\<close>

definition store_cell :: "string list list \<Rightarrow> int \<Rightarrow> int \<Rightarrow> string \<Rightarrow> js_error + string list list" where
  "store_cell arr y x s =
     (if y < 0 \<or> int (length arr) \<le> y then Inl TypeError
      else Inr (arr[nat y := store_elem (arr ! nat y) x s]))"

fun place_values ::
  "jsval list \<Rightarrow> jsval list \<Rightarrow> extracted_value list \<Rightarrow> string list list \<Rightarrow> js_error + string list list" where
  "place_values xs ys [] arr = Inr arr"
| "place_values xs ys (v # vals) arr =
     (let x = indexOf xs (Number (val_x v));
          y = indexOf ys (Number (val_y v))
      in case store_cell arr y x (val_v v) of
           Inl e \<Rightarrow> Inl e
         | Inr arr' \<Rightarrow> place_values xs ys vals arr')"

text \<open>\<^verbatim>\<open>Array.prototype.join\<close> on an array of strings.\<close>

fun join :: "string \<Rightarrow> string list \<Rightarrow> string" where
  "join sep [] = []"
| "join sep [s] = s"
| "join sep (s # t # ss) = s @ sep @ join sep (t # ss)"

text \<open>The array \<^verbatim>\<open>arr\<close> after the values are placed.\<close>

definition arr_of :: "extracted_value list \<Rightarrow> (js_error + string list list) option" where
  "arr_of vals =
     (case xs_of vals of
        None \<Rightarrow> None
      | Some xs \<Rightarrow>
          (case ys_of vals of
             None \<Rightarrow> None
           | Some ys \<Rightarrow> Some (place_values xs ys vals (blank_grid ys xs))))"

text \<open>
  \<^verbatim>\<open>str\<close>, the text handed to \<^verbatim>\<open>setState\<close>: \<open>None\<close> when a loop does not end,
  \<open>Some (Inl e)\<close> when the run throws \<open>e\<close>, \<open>Some (Inr str)\<close> otherwise.
\<close>

definition grid_text :: "extracted_value list \<Rightarrow> (js_error + string) option" where
  "grid_text vals =
     (case arr_of vals of
        None \<Rightarrow> None
      | Some (Inl e) \<Rightarrow> Some (Inl e)
      | Some (Inr arr) \<Rightarrow> Some (Inr (join [CHR 0x0A] (map (join []) arr))))"

section \<open>Characterisations the claims are stated with\<close>

text \<open>
  The indices the overlap resolver keeps, in the words of the specification: an index
  is kept when its rectangle overlaps no rectangle at an earlier index of the input.
\<close>

definition kept_indices :: "rect list \<Rightarrow> nat list" where
  "kept_indices rectangles =
     filter (\<lambda>i. \<forall>j \<in> set [0..<i]. \<not> overlap (rectangles ! i) (rectangles ! j))
       [0..<length rectangles]"

text \<open>
  The consecutive differences of a list of positions, as the specification computes the
  unit from them.
\<close>

definition consecutive_differences :: "int list \<Rightarrow> int list" where
  "consecutive_differences u = map2 (\<lambda>b a. b - a) (tl u) u"

text \<open>
  The walk of the specification over the positions after the first: \<open>steps - 1\<close> gap
  slots, then the position itself, with \<open>steps = round ((position - previous) / unit)\<close>.
\<close>

fun walk :: "int \<Rightarrow> int \<Rightarrow> int list \<Rightarrow> jsval list" where
  "walk unit previous [] = []"
| "walk unit previous (p # ps) =
     replicate (nat (js_round (of_int (p - previous) / of_int unit) - 1)) (Number (-1)) @
     Number p # walk unit p ps"

text \<open>The input of the end-to-end example of the specification.\<close>

definition example_values :: "extracted_value list" where
  "example_values =
     [\<lparr>val_x = 0, val_y = 0, val_v = ''3''\<rparr>,
      \<lparr>val_x = 20, val_y = 0, val_v = ''1''\<rparr>,
      \<lparr>val_x = 60, val_y = 0, val_v = ''2''\<rparr>,
      \<lparr>val_x = 0, val_y = 20, val_v = ''4''\<rparr>]"

section \<open>Doubles: exponent and exact values\<close>

lemma pow2_nonpos: "e \<le> 0 \<Longrightarrow> pow2 e = 1 / 2 ^ nat (- e)"
  by (cases "e = 0") (simp_all add: pow2_def)

lemma pow2_pos: "0 < pow2 e"
  by (simp add: pow2_def)



lemma exponent_upper:
  assumes "0 < q"
  shows "q < pow2 (exponent q + 1)"
proof (cases "1 \<le> q")
  case True
  then have f: "0 < \<lfloor>q\<rfloor>" by simp
  then have b: "1 \<le> bitlen \<lfloor>q\<rfloor>"
    using bitlen_eq_zero_iff [of "\<lfloor>q\<rfloor>"] bitlen_nonneg [of "\<lfloor>q\<rfloor>"] by linarith
  have "\<lfloor>q\<rfloor> + 1 \<le> 2 ^ nat (bitlen \<lfloor>q\<rfloor>)"
    using bitlen_bounds [OF f] by simp
  then have "(of_int (\<lfloor>q\<rfloor> + 1) :: rat) \<le> of_int (2 ^ nat (bitlen \<lfloor>q\<rfloor>))"
    by (simp only: of_int_le_iff)
  moreover have "q < of_int (\<lfloor>q\<rfloor> + 1)" by linarith
  ultimately have "q < 2 ^ nat (bitlen \<lfloor>q\<rfloor>)" by simp
  then show ?thesis
    using True b by (simp add: exponent_def pow2_def)
next
  case False
  let ?m = "\<lceil>1 / q\<rceil> - 1"
  have "1 < 1 / q" using False assms by simp
  then have m: "0 < ?m" by linarith
  then have b: "1 \<le> bitlen ?m"
    using bitlen_eq_zero_iff [of ?m] bitlen_nonneg [of ?m] by linarith
  have "(2 :: int) ^ nat (bitlen ?m - 1) \<le> ?m"
    using bitlen_bounds [OF m] by simp
  then have "(of_int (2 ^ nat (bitlen ?m - 1)) :: rat) \<le> of_int ?m"
    by (simp only: of_int_le_iff)
  moreover have "of_int ?m < 1 / q" by linarith
  ultimately have "2 ^ nat (bitlen ?m - 1) < 1 / q" by simp
  then have lt: "q < 1 / 2 ^ nat (bitlen ?m - 1)"
    using assms by (simp add: field_simps)
  have "pow2 (- bitlen ?m + 1) = 1 / 2 ^ nat (bitlen ?m - 1)"
    using b by (subst pow2_nonpos) simp_all
  then show ?thesis
    using False lt by (simp add: exponent_def)
qed








section \<open>Region filter: the selected rectangles\<close>







section \<open>Overlap resolver: first seen wins\<close>

lemma skip_loop_eq:
  "skip_loop rectangles i j skip =
     (skip \<or> (\<exists>k \<in> set [j..<i]. overlap (rectangles ! i) (rectangles ! k)))"
proof (induction rectangles i j skip rule: skip_loop.induct)
  case (1 rectangles i j skip)
  show ?case
  proof (cases "j < i")
    case True
    have "set [j..<i] = insert j (set [j + 1..<i])"
      using True by auto
    then show ?thesis
      using True 1 [OF True]
      by (subst skip_loop.simps) auto
  next
    case False
    then show ?thesis
      by (subst skip_loop.simps) simp
  qed
qed

lemma values_loop_append:
  "values_loop recognize rectangles i vals =
     vals @ map (\<lambda>k. \<lparr>val_x = rect_x (rectangles ! k), val_y = rect_y (rectangles ! k),
                       val_v = extract_v (recognize (rectangles ! k))\<rparr>)
       (filter (\<lambda>k. \<forall>j \<in> set [0..<k]. \<not> overlap (rectangles ! k) (rectangles ! j))
          [i..<length rectangles])"
proof (induction recognize rectangles i vals rule: values_loop.induct)
  case (1 recognize rectangles i vals)
  show ?case
  proof (cases "i < length rectangles")
    case True
    have u: "[i..<length rectangles] = i # [i + 1..<length rectangles]"
      using True by (simp add: upt_conv_Cons)
    show ?thesis
      using True 1 [OF True refl refl]
      by (subst values_loop.simps) (simp add: u Let_def skip_loop_eq)
  next
    case False
    then show ?thesis
      by (subst values_loop.simps) simp
  qed
qed

lemma overlap_sym: "overlap r1 r2 = overlap r2 r1"
  by (auto simp: overlap_def)

lemma overlap_spans:
  assumes "0 \<le> rect_width r1" "0 \<le> rect_height r1" "0 \<le> rect_width r2" "0 \<le> rect_height r2"
  shows "overlap r1 r2 \<longleftrightarrow>
     {rect_x r1 .. rect_x r1 + rect_width r1} \<inter> {rect_x r2 .. rect_x r2 + rect_width r2} \<noteq> {} \<and>
     {rect_y r1 .. rect_y r1 + rect_height r1} \<inter> {rect_y r2 .. rect_y r2 + rect_height r2} \<noteq> {}"
  using assms by (simp add: overlap_def not_less)

lemma kept_indices_pairwise:
  assumes "a \<in> set (kept_indices rectangles)" "b \<in> set (kept_indices rectangles)" "a \<noteq> b"
  shows "\<not> overlap (rectangles ! a) (rectangles ! b)"
proof (cases "a < b")
  case True
  then show ?thesis
    using assms(2) by (auto simp: kept_indices_def overlap_sym [of "rectangles ! a"])
next
  case False
  then have "b < a" using assms(3) by simp
  then show ?thesis
    using assms(1) by (auto simp: kept_indices_def)
qed

text \<open>
  C3. The overlap resolver keeps the rectangle at index \<open>i\<close> exactly when it overlaps
  no rectangle at an earlier index of the input, dropped or not: the extracted values
  are those of the kept indices, one each, in input order. Two rectangles of
  non-negative width and height overlap exactly when their closed spans meet on both
  axes. No two kept rectangles overlap. Of \<open>{0,0,20,20}\<close> and \<open>{5,5,20,20}\<close>, in that
  order, only the first survives.
\<close>

theorem overlap_resolver_first_seen_wins:
  "extract_values recognize rectangles =
     map (\<lambda>i. \<lparr>val_x = rect_x (rectangles ! i), val_y = rect_y (rectangles ! i),
                  val_v = extract_v (recognize (rectangles ! i))\<rparr>)
       (kept_indices rectangles)
   \<and> (\<forall>i. i \<in> set (kept_indices rectangles) \<longleftrightarrow>
          i < length rectangles \<and> (\<forall>j < i. \<not> overlap (rectangles ! i) (rectangles ! j)))
   \<and> sorted_wrt (<) (kept_indices rectangles)
   \<and> (\<forall>a \<in> set (kept_indices rectangles). \<forall>b \<in> set (kept_indices rectangles).
          a \<noteq> b \<longrightarrow> \<not> overlap (rectangles ! a) (rectangles ! b))
   \<and> (\<forall>r1 r2. 0 \<le> rect_width r1 \<and> 0 \<le> rect_height r1 \<and> 0 \<le> rect_width r2 \<and> 0 \<le> rect_height r2 \<longrightarrow>
          (overlap r1 r2 \<longleftrightarrow>
             {rect_x r1 .. rect_x r1 + rect_width r1} \<inter> {rect_x r2 .. rect_x r2 + rect_width r2} \<noteq> {} \<and>
             {rect_y r1 .. rect_y r1 + rect_height r1} \<inter> {rect_y r2 .. rect_y r2 + rect_height r2} \<noteq> {}))
   \<and> kept_indices [\<lparr>rect_x = 0, rect_y = 0, rect_width = 20, rect_height = 20\<rparr>,
                     \<lparr>rect_x = 5, rect_y = 5, rect_width = 20, rect_height = 20\<rparr>] = [0]"
proof (intro conjI)
  show "extract_values recognize rectangles =
     map (\<lambda>i. \<lparr>val_x = rect_x (rectangles ! i), val_y = rect_y (rectangles ! i),
                  val_v = extract_v (recognize (rectangles ! i))\<rparr>)
       (kept_indices rectangles)"
    by (simp add: extract_values_def values_loop_append kept_indices_def)
  show "\<forall>i. i \<in> set (kept_indices rectangles) \<longleftrightarrow>
          i < length rectangles \<and> (\<forall>j < i. \<not> overlap (rectangles ! i) (rectangles ! j))"
    by (auto simp: kept_indices_def)
  show "sorted_wrt (<) (kept_indices rectangles)"
    unfolding kept_indices_def by (rule sorted_wrt_filter) (simp add: sorted_wrt_upt)
  show "\<forall>a \<in> set (kept_indices rectangles). \<forall>b \<in> set (kept_indices rectangles).
          a \<noteq> b \<longrightarrow> \<not> overlap (rectangles ! a) (rectangles ! b)"
    using kept_indices_pairwise by blast
  show "\<forall>r1 r2. 0 \<le> rect_width r1 \<and> 0 \<le> rect_height r1 \<and> 0 \<le> rect_width r2 \<and> 0 \<le> rect_height r2 \<longrightarrow>
          (overlap r1 r2 \<longleftrightarrow>
             {rect_x r1 .. rect_x r1 + rect_width r1} \<inter> {rect_x r2 .. rect_x r2 + rect_width r2} \<noteq> {} \<and>
             {rect_y r1 .. rect_y r1 + rect_height r1} \<inter> {rect_y r2 .. rect_y r2 + rect_height r2} \<noteq> {})"
    using overlap_spans by blast
  show "kept_indices [\<lparr>rect_x = 0, rect_y = 0, rect_width = 20, rect_height = 20\<rparr>,
                     \<lparr>rect_x = 5, rect_y = 5, rect_width = 20, rect_height = 20\<rparr>] = [0]"
    by code_simp
qed

theorem overlap_resolver_first_seen_wins_witness:
  "extract_values (\<lambda>r. if rect_x r = 0 then ''3 '' else ''x'')
     [\<lparr>rect_x = 0, rect_y = 0, rect_width = 20, rect_height = 20\<rparr>,
      \<lparr>rect_x = 5, rect_y = 5, rect_width = 20, rect_height = 20\<rparr>,
      \<lparr>rect_x = 22, rect_y = 0, rect_width = 20, rect_height = 20\<rparr>,
      \<lparr>rect_x = 90, rect_y = 0, rect_width = 20, rect_height = 20\<rparr>] =
   [\<lparr>val_x = 0, val_y = 0, val_v = ''3''\<rparr>, \<lparr>val_x = 90, val_y = 0, val_v = ''?''\<rparr>]
   \<and> kept_indices
     [\<lparr>rect_x = 0, rect_y = 0, rect_width = 20, rect_height = 20\<rparr>,
      \<lparr>rect_x = 5, rect_y = 5, rect_width = 20, rect_height = 20\<rparr>,
      \<lparr>rect_x = 22, rect_y = 0, rect_width = 20, rect_height = 20\<rparr>,
      \<lparr>rect_x = 90, rect_y = 0, rect_width = 20, rect_height = 20\<rparr>] = [0, 3]
   \<and> \<not> overlap \<lparr>rect_x = 0, rect_y = 0, rect_width = 20, rect_height = 20\<rparr>
                 \<lparr>rect_x = 90, rect_y = 0, rect_width = 20, rect_height = 20\<rparr>
   \<and> overlap \<lparr>rect_x = 5, rect_y = 5, rect_width = 20, rect_height = 20\<rparr>
               \<lparr>rect_x = 22, rect_y = 0, rect_width = 20, rect_height = 20\<rparr>
   \<and> {5 .. 25 :: int} \<inter> {22 .. 42} \<noteq> {} \<and> {5 .. 25 :: int} \<inter> {0 .. 20} \<noteq> {}"
proof -
  let ?r0 = "\<lparr>rect_x = 0, rect_y = 0, rect_width = 20, rect_height = 20\<rparr>"
  let ?r1 = "\<lparr>rect_x = 5, rect_y = 5, rect_width = 20, rect_height = 20\<rparr>"
  let ?r2 = "\<lparr>rect_x = 22, rect_y = 0, rect_width = 20, rect_height = 20\<rparr>"
  let ?r3 = "\<lparr>rect_x = 90, rect_y = 0, rect_width = 20, rect_height = 20\<rparr>"
  let ?f = "\<lambda>r. if rect_x r = 0 then ''3 '' else ''x''"
  note T = overlap_resolver_first_seen_wins [of ?f "[?r0, ?r1, ?r2, ?r3]"]
  have k: "kept_indices [?r0, ?r1, ?r2, ?r3] = [0, 3]"
    by code_simp
  have e: "extract_v ''3 '' = ''3''" "extract_v ''x'' = ''?''"
    by code_simp+
  have v: "extract_values ?f [?r0, ?r1, ?r2, ?r3] =
      [\<lparr>val_x = 0, val_y = 0, val_v = ''3''\<rparr>, \<lparr>val_x = 90, val_y = 0, val_v = ''?''\<rparr>]"
    using T [THEN conjunct1] by (simp add: k e)
  have pw: "\<forall>a \<in> set (kept_indices [?r0, ?r1, ?r2, ?r3]).
            \<forall>b \<in> set (kept_indices [?r0, ?r1, ?r2, ?r3]).
              a \<noteq> b \<longrightarrow> \<not> overlap ([?r0, ?r1, ?r2, ?r3] ! a) ([?r0, ?r1, ?r2, ?r3] ! b)"
    using T by (elim conjE)
  have n: "\<not> overlap ?r0 ?r3"
    using pw [unfolded k, rule_format, of 0 3] by simp
  have sp: "\<forall>r1 r2. 0 \<le> rect_width r1 \<and> 0 \<le> rect_height r1 \<and> 0 \<le> rect_width r2 \<and> 0 \<le> rect_height r2 \<longrightarrow>
          (overlap r1 r2 \<longleftrightarrow>
             {rect_x r1 .. rect_x r1 + rect_width r1} \<inter> {rect_x r2 .. rect_x r2 + rect_width r2} \<noteq> {} \<and>
             {rect_y r1 .. rect_y r1 + rect_height r1} \<inter> {rect_y r2 .. rect_y r2 + rect_height r2} \<noteq> {})"
    using T by (elim conjE)
  have o: "overlap ?r1 ?r2"
    by (simp add: overlap_def)
  have "{rect_x ?r1 .. rect_x ?r1 + rect_width ?r1} \<inter> {rect_x ?r2 .. rect_x ?r2 + rect_width ?r2} \<noteq> {} \<and>
        {rect_y ?r1 .. rect_y ?r1 + rect_height ?r1} \<inter> {rect_y ?r2 .. rect_y ?r2 + rect_height ?r2} \<noteq> {}"
    using sp [rule_format, of ?r1 ?r2] o by simp
  then have s: "{5 .. 25 :: int} \<inter> {22 .. 42} \<noteq> {} \<and> {5 .. 25 :: int} \<inter> {0 .. 20} \<noteq> {}"
    by simp
  show ?thesis
    using v k n o s by (intro conjI) simp_all
qed

section \<open>Array search\<close>

lemma indexOf_from_eq:
  "indexOf_from bs a k =
     (if a \<in> set bs then k + int (length (takeWhile (\<lambda>b. b \<noteq> a) bs)) else -1)"
  by (induction bs arbitrary: k) auto

lemma indexOf_eq:
  "indexOf bs a = (if a \<in> set bs then int (length (takeWhile (\<lambda>b. b \<noteq> a) bs)) else -1)"
  by (simp add: indexOf_def indexOf_from_eq)

lemma indexOf_minus_one: "indexOf bs a = -1 \<longleftrightarrow> a \<notin> set bs"
  by (simp add: indexOf_eq)

lemma length_takeWhile_neq:
  "a \<in> set bs \<Longrightarrow> length (takeWhile (\<lambda>b. b \<noteq> a) bs) < length bs"
  by (induction bs) auto

lemma indexOf_found:
  assumes "a \<in> set bs"
  shows "0 \<le> indexOf bs a" "indexOf bs a < int (length bs)" "bs ! nat (indexOf bs a) = a"
proof -
  have l: "length (takeWhile (\<lambda>b. b \<noteq> a) bs) < length bs"
    using assms by (rule length_takeWhile_neq)
  show "0 \<le> indexOf bs a" "indexOf bs a < int (length bs)"
    using assms l by (simp_all add: indexOf_eq)
  show "bs ! nat (indexOf bs a) = a"
    using assms nth_length_takeWhile [OF l] by (simp add: indexOf_eq)
qed

section \<open>The distinct positions\<close>

lemma collect_uniq_sets:
  "set (fst (collect_uniq vals ux uy)) = set ux \<union> val_x ` set vals"
  "set (snd (collect_uniq vals ux uy)) = set uy \<union> val_y ` set vals"
  by (induction vals arbitrary: ux uy) (auto simp: indexOf_minus_one)

lemma collect_uniq_distinct:
  "distinct ux \<Longrightarrow> distinct (fst (collect_uniq vals ux uy))"
  "distinct uy \<Longrightarrow> distinct (snd (collect_uniq vals ux uy))"
  by (induction vals arbitrary: ux uy) (auto simp: indexOf_minus_one)

lemma uniq_x_eq: "uniq_x vals = sorted_list_of_set (val_x ` set vals)"
proof -
  have "sort (fst (collect_uniq vals [] [])) = sorted_list_of_set (set (fst (collect_uniq vals [] [])))"
    by (simp add: sorted_list_of_set_sort_remdups distinct_remdups_id collect_uniq_distinct)
  then show ?thesis
    by (simp add: uniq_x_def collect_uniq_sets)
qed

lemma uniq_y_eq: "uniq_y vals = sorted_list_of_set (val_y ` set vals)"
proof -
  have "sort (snd (collect_uniq vals [] [])) = sorted_list_of_set (set (snd (collect_uniq vals [] [])))"
    by (simp add: sorted_list_of_set_sort_remdups distinct_remdups_id collect_uniq_distinct)
  then show ?thesis
    by (simp add: uniq_y_def collect_uniq_sets)
qed

lemma uniq_x_props:
  "sorted_wrt (<) (uniq_x vals)" "set (uniq_x vals) = val_x ` set vals"
  by (simp_all add: uniq_x_eq)

lemma uniq_y_props:
  "sorted_wrt (<) (uniq_y vals)" "set (uniq_y vals) = val_y ` set vals"
  by (simp_all add: uniq_y_eq)

section \<open>The unit\<close>

lemma Min_insert_min:
  assumes "finite S"
  shows "Min (insert (min a m) S) = Min (insert m (insert a S))"
proof (cases "S = {}")
  case True
  then show ?thesis by (simp add: min.commute)
next
  case False
  then show ?thesis
    using assms by (simp add: min.assoc min.left_commute min.commute)
qed

lemma min_delta_loop_eq:
  "min_delta_loop u i m = Min (insert m ((\<lambda>k. u ! k - u ! (k - 1)) ` {i..<length u}))"
proof (induction u i m rule: min_delta_loop.induct)
  case (1 u i m)
  show ?case
  proof (cases "i < length u")
    case True
    have s: "{i..<length u} = insert i {i + 1..<length u}"
      using True by auto
    show ?thesis
      using True 1 [OF True refl]
      by (subst min_delta_loop.simps) (simp add: s Let_def Min_insert_min del: Min_insert)
  next
    case False
    then show ?thesis
      by (subst min_delta_loop.simps) simp
  qed
qed

lemma MAX_VALUE_pos: "0 < MAX_VALUE"
  by (simp add: MAX_VALUE_def)

lemma strict_sorted_delta_pos:
  fixes u :: "int list"
  assumes "sorted_wrt (<) u" "1 \<le> k" "k < length u"
  shows "0 < u ! k - u ! (k - 1)"
proof -
  have "u ! (k - 1) < u ! k"
    using assms sorted_wrt_nth_less [of "(<)" u "k - 1" k] by simp
  then show ?thesis by linarith
qed

lemma min_delta_of_pos:
  assumes "sorted_wrt (<) u"
  shows "0 < min_delta_of u"
proof -
  have "finite (insert MAX_VALUE ((\<lambda>k. u ! k - u ! (k - 1)) ` {1..<length u}))"
    by simp
  moreover have "\<forall>d \<in> insert MAX_VALUE ((\<lambda>k. u ! k - u ! (k - 1)) ` {1..<length u}). 0 < d"
    using strict_sorted_delta_pos [OF assms] MAX_VALUE_pos by auto
  ultimately show ?thesis
    unfolding min_delta_of_def min_delta_loop_eq by (subst Min_gr_iff) auto
qed

lemma consecutive_differences_eq:
  "consecutive_differences u = map (\<lambda>k. u ! k - u ! (k - 1)) [1..<length u]"
proof (rule nth_equalityI)
  show "length (consecutive_differences u) = length (map (\<lambda>k. u ! k - u ! (k - 1)) [1..<length u])"
    by (simp add: consecutive_differences_def)
next
  fix i assume "i < length (consecutive_differences u)"
  then have "i < length u - 1" by (simp add: consecutive_differences_def)
  then show "consecutive_differences u ! i = map (\<lambda>k. u ! k - u ! (k - 1)) [1..<length u] ! i"
    by (simp add: consecutive_differences_def nth_tl)
qed

section \<open>The axis-building walk\<close>

lemma push_gaps_Finite:
  "push_gaps (Finite n) xs = Some (xs @ replicate (nat (n - 1)) (Number (-1)))"
proof (induction "nat (n - 1)" arbitrary: n xs)
  case 0
  then have "\<not> gt_one (Finite n)" by simp
  then show ?case
    using 0 by (subst push_gaps.simps) simp
next
  case (Suc k)
  then have g: "gt_one (Finite n)" and k: "k = nat (n - 1 - 1)" by simp_all
  have "push_gaps (Finite n) xs = push_gaps (Finite (n - 1)) (xs @ [Number (-1)])"
    using g by (subst push_gaps.simps) simp
  also have "\<dots> = Some ((xs @ [Number (-1)]) @ replicate (nat (n - 1 - 1)) (Number (-1)))"
    by (rule Suc(1)) (rule k)
  also have "(xs @ [Number (-1)]) @ replicate (nat (n - 1 - 1)) (Number (-1)) =
             xs @ replicate (nat (n - 1)) (Number (-1))"
    using Suc(2) k by (metis append.assoc append_Cons append_Nil replicate_Suc)
  finally show ?case .
qed

lemma round_div_Finite:
  "m \<noteq> 0 \<Longrightarrow> round_div d m = Finite (js_round (of_int d / of_int m))"
  by (simp add: round_div_def)

lemma axis_loop_walk:
  "m \<noteq> 0 \<Longrightarrow> axis_loop u m i xs = Some (xs @ walk m (u ! (i - 1)) (drop i u))"
proof (induction u m i xs rule: axis_loop.induct)
  case (1 u m i xs)
  show ?case
  proof (cases "i < length u")
    case True
    let ?g = "replicate (nat (js_round (of_int (u ! i - u ! (i - 1)) / of_int m) - 1)) (Number (-1))"
    have d: "drop i u = u ! i # drop (i + 1) u"
      using True by (simp add: Cons_nth_drop_Suc)
    have pg: "push_gaps (round_div (u ! i - u ! (i - 1)) m) xs = Some (xs @ ?g)"
      using "1.prems" by (simp add: round_div_Finite push_gaps_Finite)
    have "axis_loop u m i xs = axis_loop u m (i + 1) ((xs @ ?g) @ [Number (u ! i)])"
      by (subst axis_loop.simps) (simp only: True if_True Let_def pg option.case)
    also have "\<dots> = Some (((xs @ ?g) @ [Number (u ! i)]) @ walk m (u ! (i + 1 - 1)) (drop (i + 1) u))"
      using "1.IH" [OF True refl pg "1.prems"] .
    also have "\<dots> = Some (xs @ walk m (u ! (i - 1)) (drop i u))"
      by (simp add: d)
    finally show ?thesis .
  next
    case False
    then show ?thesis
      by (subst axis_loop.simps) simp
  qed
qed

lemma axis_loop_short:
  "length u \<le> i \<Longrightarrow> axis_loop u m i xs = Some xs"
  by (subst axis_loop.simps) simp

lemma build_axis_Nil: "build_axis [] = Some [Undefined]"
  by (simp add: build_axis_def axis_loop_short first_elem_def)

lemma build_axis_Cons:
  assumes "sorted_wrt (<) (p # ps)"
  shows "build_axis (p # ps) = Some (Number p # walk (min_delta_of (p # ps)) p ps)"
proof -
  have "min_delta_of (p # ps) \<noteq> 0"
    using min_delta_of_pos [OF assms] by simp
  then show ?thesis
    by (simp add: build_axis_def axis_loop_walk first_elem_def)
qed

lemma build_axis_total:
  assumes "sorted_wrt (<) u"
  shows "\<exists>xs. build_axis u = Some xs"
  using assms by (cases u) (simp_all add: build_axis_Nil build_axis_Cons)

lemma xs_of_total: "\<exists>xs. xs_of vals = Some xs"
  unfolding xs_of_def by (rule build_axis_total) (rule uniq_x_props)

lemma ys_of_total: "\<exists>ys. ys_of vals = Some ys"
  unfolding ys_of_def by (rule build_axis_total) (rule uniq_y_props)

subsection \<open>What the walk holds\<close>

lemma walk_set_upper: "set (walk m previous ps) \<subseteq> insert (Number (-1)) (Number ` set ps)"
  by (induction ps arbitrary: previous) auto

lemma walk_set_lower: "Number ` set ps \<subseteq> set (walk m previous ps)"
  by (induction ps arbitrary: previous) auto

lemma walk_count:
  "p \<noteq> -1 \<Longrightarrow> count_list (walk m previous ps) (Number p) = count_list ps p"
  by (induction ps arbitrary: previous) auto

lemma walk_append:
  "walk m previous (as @ bs) = walk m previous as @ walk m (last (previous # as)) bs"
  by (induction as arbitrary: previous) auto

lemma build_axis_nonempty:
  assumes "build_axis u = Some xs" "sorted_wrt (<) u"
  shows "xs \<noteq> []"
  using assms by (cases u) (auto simp: build_axis_Nil build_axis_Cons)

lemma build_axis_member:
  assumes "build_axis u = Some xs" "sorted_wrt (<) u" "p \<in> set u"
  shows "Number p \<in> set xs"
proof (cases u)
  case Nil
  then show ?thesis using assms by simp
next
  case (Cons q qs)
  then have xs: "xs = Number q # walk (min_delta_of u) q qs"
    using assms build_axis_Cons by simp
  show ?thesis
    using assms(3) walk_set_lower [of qs "min_delta_of u" q] by (auto simp: xs Cons)
qed

lemma distinct_count_list_one:
  "distinct ps \<Longrightarrow> count_list ps p = (if p \<in> set ps then 1 else 0)"
  by (induction ps) auto

lemma build_axis_count:
  assumes "build_axis u = Some xs" "sorted_wrt (<) u" "p \<noteq> -1"
  shows "count_list xs (Number p) = (if p \<in> set u then 1 else 0)"
proof (cases u)
  case Nil
  then show ?thesis using assms by (auto simp: build_axis_Nil)
next
  case (Cons q qs)
  then have xs: "xs = Number q # walk (min_delta_of u) q qs"
    using assms build_axis_Cons by simp
  have "distinct u"
    using assms(2) by (simp add: strict_sorted_iff)
  have "count_list xs (Number p) = count_list u p"
    using assms(3) by (simp add: xs walk_count Cons)
  also have "\<dots> = (if p \<in> set u then 1 else 0)"
    using \<open>distinct u\<close> by (rule distinct_count_list_one)
  finally show ?thesis .
qed

section \<open>Grid assembly\<close>

lemma store_cell_in_range:
  assumes "0 \<le> y" "y < int (length arr)" "0 \<le> x" "x < int (length (arr ! nat y))"
  shows "store_cell arr y x s = Inr (arr[nat y := (arr ! nat y)[nat x := s]])"
proof -
  have "nat x < length (arr ! nat y)"
    using assms(3,4) by linarith
  then show ?thesis
    using assms(1,2,3) by (simp add: store_cell_def store_elem_def)
qed

lemma nth_update_grid:
  assumes "i < length arr" "a < length arr"
  shows "(arr[a := (arr ! a)[b := s]]) ! i ! j =
         (if i = a \<and> j = b \<and> j < length (arr ! a) then s else arr ! i ! j)"
proof (cases "i = a")
  case True
  then show ?thesis
    using assms by (cases "b < length (arr ! a)") (auto simp: nth_list_update list_update_beyond)
next
  case False
  then show ?thesis
    using assms by (simp add: nth_list_update)
qed

lemma rows_update_grid:
  assumes "\<forall>row \<in> set arr. length row = nc"
  shows "\<forall>row \<in> set (arr[a := (arr ! a)[b := s]]). length row = nc"
proof (cases "a < length arr")
  case True
  then have "length ((arr ! a)[b := s]) = nc"
    using assms by simp
  moreover have "set (arr[a := (arr ! a)[b := s]]) \<subseteq> insert ((arr ! a)[b := s]) (set arr)"
    by (rule set_update_subset_insert)
  ultimately show ?thesis
    using assms by auto
next
  case False
  then show ?thesis
    using assms by (simp add: list_update_beyond)
qed

lemma find_append_case:
  "find P (as @ bs) = (case find P as of None \<Rightarrow> find P bs | Some a \<Rightarrow> Some a)"
  by (induction as) auto

lemma place_values_cells:
  assumes "\<forall>v \<in> set vals. 0 \<le> indexOf ys (Number (val_y v)) \<and>
             indexOf ys (Number (val_y v)) < int (length arr) \<and>
             0 \<le> indexOf xs (Number (val_x v)) \<and> indexOf xs (Number (val_x v)) < int nc"
    and "\<forall>row \<in> set arr. length row = nc"
  shows "\<exists>arr'. place_values xs ys vals arr = Inr arr' \<and> length arr' = length arr \<and>
           (\<forall>row \<in> set arr'. length row = nc) \<and>
           (\<forall>i < length arr. \<forall>j < nc. arr' ! i ! j =
              (case find (\<lambda>v. indexOf ys (Number (val_y v)) = int i \<and>
                            indexOf xs (Number (val_x v)) = int j) (rev vals) of
                 None \<Rightarrow> arr ! i ! j
               | Some v \<Rightarrow> val_v v))"
  using assms
proof (induction vals arbitrary: arr)
  case Nil
  then show ?case by simp
next
  case (Cons v vals)
  let ?y = "indexOf ys (Number (val_y v))"
  let ?x = "indexOf xs (Number (val_x v))"
  let ?arr1 = "arr[nat ?y := (arr ! nat ?y)[nat ?x := val_v v]]"
  have y: "0 \<le> ?y" "?y < int (length arr)" and x: "0 \<le> ?x" "?x < int nc"
    using Cons.prems(1) by simp_all
  have ny: "nat ?y < length arr" using y by simp
  have len: "length (arr ! nat ?y) = nc"
    using Cons.prems(2) ny by simp
  have st: "store_cell arr ?y ?x (val_v v) = Inr ?arr1"
    using y x len by (simp add: store_cell_in_range)
  have rows1: "\<forall>row \<in> set ?arr1. length row = nc"
    using Cons.prems(2) by (rule rows_update_grid)
  have pre1: "\<forall>v \<in> set vals. 0 \<le> indexOf ys (Number (val_y v)) \<and>
             indexOf ys (Number (val_y v)) < int (length ?arr1) \<and>
             0 \<le> indexOf xs (Number (val_x v)) \<and> indexOf xs (Number (val_x v)) < int nc"
    using Cons.prems(1) by simp
  obtain arr' where a: "place_values xs ys vals ?arr1 = Inr arr'" "length arr' = length ?arr1"
      "\<forall>row \<in> set arr'. length row = nc"
      and cells: "\<forall>i < length ?arr1. \<forall>j < nc. arr' ! i ! j =
              (case find (\<lambda>v. indexOf ys (Number (val_y v)) = int i \<and>
                            indexOf xs (Number (val_x v)) = int j) (rev vals) of
                 None \<Rightarrow> ?arr1 ! i ! j
               | Some v \<Rightarrow> val_v v)"
    using Cons.IH [OF pre1 rows1] by blast
  have "place_values xs ys (v # vals) arr = Inr arr'"
    using st a(1) by (simp add: Let_def)
  moreover have "length arr' = length arr"
    using a(2) by simp
  moreover have "\<forall>i < length arr. \<forall>j < nc. arr' ! i ! j =
              (case find (\<lambda>v. indexOf ys (Number (val_y v)) = int i \<and>
                            indexOf xs (Number (val_x v)) = int j) (rev (v # vals)) of
                 None \<Rightarrow> arr ! i ! j
               | Some v \<Rightarrow> val_v v)"
  proof (intro allI impI)
    fix i j assume i: "i < length arr" and j: "j < nc"
    have c: "arr' ! i ! j =
              (case find (\<lambda>v. indexOf ys (Number (val_y v)) = int i \<and>
                            indexOf xs (Number (val_x v)) = int j) (rev vals) of
                 None \<Rightarrow> ?arr1 ! i ! j
               | Some v \<Rightarrow> val_v v)"
      using cells i j by simp
    have u: "?arr1 ! i ! j = (if i = nat ?y \<and> j = nat ?x \<and> j < length (arr ! nat ?y) then val_v v else arr ! i ! j)"
      using i ny by (rule nth_update_grid)
    have e: "(?y = int i \<and> ?x = int j) = (i = nat ?y \<and> j = nat ?x)"
      using y x by auto
    show "arr' ! i ! j =
              (case find (\<lambda>v. indexOf ys (Number (val_y v)) = int i \<and>
                            indexOf xs (Number (val_x v)) = int j) (rev (v # vals)) of
                 None \<Rightarrow> arr ! i ! j
               | Some v \<Rightarrow> val_v v)"
      using j by (simp add: c u e len find_append_case split: option.split)
  qed
  ultimately show ?case
    using a(3) by blast
qed

lemma join_empty_concat: "join [] row = concat row"
  by (induction "[] :: string" row rule: join.induct) simp_all

lemma join_set: "set (join sep rows) \<subseteq> set sep \<union> \<Union> (set ` set rows)"
  by (induction sep rows rule: join.induct) auto

lemma length_concat_single:
  "\<forall>c \<in> set row. length c = 1 \<Longrightarrow> length (concat row) = length row"
  by (induction row) simp_all

section \<open>The assembled grid\<close>

lemma lookup_x:
  assumes "xs_of vals = Some xs" "v \<in> set vals"
  shows "0 \<le> indexOf xs (Number (val_x v))"
    and "indexOf xs (Number (val_x v)) < int (length xs)"
    and "xs ! nat (indexOf xs (Number (val_x v))) = Number (val_x v)"
proof -
  have "val_x v \<in> set (uniq_x vals)"
    using assms(2) by (simp add: uniq_x_props)
  then have m: "Number (val_x v) \<in> set xs"
    using assms(1) uniq_x_props(1) unfolding xs_of_def by (rule build_axis_member [rotated 2])
  show "0 \<le> indexOf xs (Number (val_x v))"
    and "indexOf xs (Number (val_x v)) < int (length xs)"
    and "xs ! nat (indexOf xs (Number (val_x v))) = Number (val_x v)"
    using indexOf_found [OF m] by simp_all
qed

lemma lookup_y:
  assumes "ys_of vals = Some ys" "v \<in> set vals"
  shows "0 \<le> indexOf ys (Number (val_y v))"
    and "indexOf ys (Number (val_y v)) < int (length ys)"
    and "ys ! nat (indexOf ys (Number (val_y v))) = Number (val_y v)"
proof -
  have "val_y v \<in> set (uniq_y vals)"
    using assms(2) by (simp add: uniq_y_props)
  then have m: "Number (val_y v) \<in> set ys"
    using assms(1) uniq_y_props(1) unfolding ys_of_def by (rule build_axis_member [rotated 2])
  show "0 \<le> indexOf ys (Number (val_y v))"
    and "indexOf ys (Number (val_y v)) < int (length ys)"
    and "ys ! nat (indexOf ys (Number (val_y v))) = Number (val_y v)"
    using indexOf_found [OF m] by simp_all
qed

lemma grid_assembled:
  obtains xs ys arr where
    "xs_of vals = Some xs" "ys_of vals = Some ys" "arr_of vals = Some (Inr arr)"
    "length arr = length ys" "\<forall>row \<in> set arr. length row = length xs"
    "\<forall>i < length ys. \<forall>j < length xs. arr ! i ! j =
       (case find (\<lambda>v. indexOf ys (Number (val_y v)) = int i \<and>
                     indexOf xs (Number (val_x v)) = int j) (rev vals) of
          None \<Rightarrow> '' ''
        | Some v \<Rightarrow> val_v v)"
proof -
  obtain xs where xs: "xs_of vals = Some xs"
    using xs_of_total by blast
  obtain ys where ys: "ys_of vals = Some ys"
    using ys_of_total by blast
  have pre: "\<forall>v \<in> set vals. 0 \<le> indexOf ys (Number (val_y v)) \<and>
             indexOf ys (Number (val_y v)) < int (length (blank_grid ys xs)) \<and>
             0 \<le> indexOf xs (Number (val_x v)) \<and>
             indexOf xs (Number (val_x v)) < int (length xs)"
    using lookup_x [OF xs] lookup_y [OF ys] by (simp add: blank_grid_def)
  have rows: "\<forall>row \<in> set (blank_grid ys xs). length row = length xs"
    by (simp add: blank_grid_def)
  obtain arr where a: "place_values xs ys vals (blank_grid ys xs) = Inr arr"
      "length arr = length (blank_grid ys xs)" "\<forall>row \<in> set arr. length row = length xs"
    and c: "\<forall>i < length (blank_grid ys xs). \<forall>j < length xs. arr ! i ! j =
       (case find (\<lambda>v. indexOf ys (Number (val_y v)) = int i \<and>
                     indexOf xs (Number (val_x v)) = int j) (rev vals) of
          None \<Rightarrow> blank_grid ys xs ! i ! j
        | Some v \<Rightarrow> val_v v)"
    using place_values_cells [OF pre rows] by blast
  have "arr_of vals = Some (Inr arr)"
    by (simp add: arr_of_def xs ys a(1))
  moreover have "length arr = length ys"
    using a(2) by (simp add: blank_grid_def)
  moreover have "\<forall>i < length ys. \<forall>j < length xs. arr ! i ! j =
       (case find (\<lambda>v. indexOf ys (Number (val_y v)) = int i \<and>
                     indexOf xs (Number (val_x v)) = int j) (rev vals) of
          None \<Rightarrow> '' ''
        | Some v \<Rightarrow> val_v v)"
    using c by (auto simp: blank_grid_def split: option.split)
  ultimately show ?thesis
    using that xs ys a(3) by blast
qed

lemma grid_text_of_arr:
  "arr_of vals = Some (Inr arr) \<Longrightarrow>
   grid_text vals = Some (Inr (join [CHR 0x0A] (map concat arr)))"
  by (simp add: grid_text_def join_empty_concat cong: map_cong)

section \<open>Claims on the grid\<close>

lemma find_SomeD:
  "find P bs = Some b \<Longrightarrow> P b \<and> b \<in> set bs"
  by (induction bs) (auto split: if_splits)

lemma cells_single:
  assumes "\<forall>v \<in> set vals. length (val_v v) = 1"
    and "length arr = length ys" "\<forall>row \<in> set arr. length row = length xs"
    and "\<forall>i < length ys. \<forall>j < length xs. arr ! i ! j =
       (case find (P i j) (rev vals) of None \<Rightarrow> '' '' | Some v \<Rightarrow> val_v v)"
    and "row \<in> set arr" "c \<in> set row"
  shows "length c = 1"
proof -
  obtain i where i: "i < length arr" "row = arr ! i"
    using assms(5) by (auto simp: in_set_conv_nth)
  obtain j where j: "j < length row" "c = row ! j"
    using assms(6) by (auto simp: in_set_conv_nth)
  have "j < length xs" using assms(3,5) j(1) by simp
  then have c: "c = (case find (P i j) (rev vals) of None \<Rightarrow> '' '' | Some v \<Rightarrow> val_v v)"
    using assms(2,4) i j by simp
  show ?thesis
  proof (cases "find (P i j) (rev vals)")
    case None
    then show ?thesis using c by simp
  next
    case (Some v)
    then have "v \<in> set vals"
      using find_SomeD [of "P i j" "rev vals" v] by simp
    then show ?thesis using c Some assms(1) by simp
  qed
qed

lemma cell_of_value:
  assumes xs: "xs_of vals = Some xs" and ys: "ys_of vals = Some ys"
    and inj: "\<forall>v \<in> set vals. \<forall>w \<in> set vals. val_x v = val_x w \<and> val_y v = val_y w \<longrightarrow> v = w"
    and v: "v \<in> set vals"
  shows "find (\<lambda>w. indexOf ys (Number (val_y w)) = indexOf ys (Number (val_y v)) \<and>
                    indexOf xs (Number (val_x w)) = indexOf xs (Number (val_x v))) (rev vals) = Some v"
proof -
  let ?P = "\<lambda>w. indexOf ys (Number (val_y w)) = indexOf ys (Number (val_y v)) \<and>
                 indexOf xs (Number (val_x w)) = indexOf xs (Number (val_x v))"
  have "\<exists>w. find ?P (rev vals) = Some w"
    using v by (cases "find ?P (rev vals)") (auto simp: find_None_iff)
  then obtain w where w: "find ?P (rev vals) = Some w" by blast
  from w have "?P w \<and> w \<in> set (rev vals)"
    by (rule find_SomeD)
  then have ws: "w \<in> set vals"
    and py: "indexOf ys (Number (val_y w)) = indexOf ys (Number (val_y v))"
    and px: "indexOf xs (Number (val_x w)) = indexOf xs (Number (val_x v))"
    by simp_all
  have "Number (val_x w) = xs ! nat (indexOf xs (Number (val_x w)))"
    using lookup_x(3) [OF xs ws] by (rule sym)
  also have "\<dots> = Number (val_x v)"
    unfolding px by (rule lookup_x(3) [OF xs v])
  finally have ex: "val_x w = val_x v" by simp
  have "Number (val_y w) = ys ! nat (indexOf ys (Number (val_y w)))"
    using lookup_y(3) [OF ys ws] by (rule sym)
  also have "\<dots> = Number (val_y v)"
    unfolding py by (rule lookup_y(3) [OF ys v])
  finally have ey: "val_y w = val_y v" by simp
  have "w = v"
    using inj ws v ex ey by blast
  then show ?thesis using w by (simp only:)
qed

text \<open>
  C5, as amended. Every run assembles a grid. The array has one row for each entry of
  the y-axis sequence, and every row has one cell for each entry of the x-axis
  sequence. Every value is looked up at an index inside both sequences; a cell that no
  value is looked up at holds \<open>" "\<close>, any other cell holds the string of the last value
  looked up at it, and when no two values share both positions every value stands in
  its cell. The text is the rows, each the concatenation of its cells, joined by
  newlines. When every value is one character long, every row of the text is as long as
  the x-axis sequence.
\<close>

theorem grid_shape_and_cells:
  "\<exists>xs ys arr.
     xs_of vals = Some xs \<and> ys_of vals = Some ys \<and> arr_of vals = Some (Inr arr) \<and>
     length arr = length ys \<and>
     (\<forall>row \<in> set arr. length row = length xs) \<and>
     (\<forall>v \<in> set vals.
        0 \<le> indexOf ys (Number (val_y v)) \<and> indexOf ys (Number (val_y v)) < int (length ys) \<and>
        0 \<le> indexOf xs (Number (val_x v)) \<and> indexOf xs (Number (val_x v)) < int (length xs)) \<and>
     (\<forall>i < length ys. \<forall>j < length xs. arr ! i ! j =
        (case find (\<lambda>v. indexOf ys (Number (val_y v)) = int i \<and>
                      indexOf xs (Number (val_x v)) = int j) (rev vals) of
           None \<Rightarrow> '' ''
         | Some v \<Rightarrow> val_v v)) \<and>
     ((\<forall>v \<in> set vals. \<forall>w \<in> set vals. val_x v = val_x w \<and> val_y v = val_y w \<longrightarrow> v = w) \<longrightarrow>
      (\<forall>v \<in> set vals.
         arr ! nat (indexOf ys (Number (val_y v))) ! nat (indexOf xs (Number (val_x v))) = val_v v)) \<and>
     grid_text vals = Some (Inr (join [CHR 0x0A] (map concat arr))) \<and>
     ((\<forall>v \<in> set vals. length (val_v v) = 1) \<longrightarrow>
      (\<forall>row \<in> set arr. length (concat row) = length xs))"
proof -
  obtain xs ys arr where g:
    "xs_of vals = Some xs" "ys_of vals = Some ys" "arr_of vals = Some (Inr arr)"
    "length arr = length ys" "\<forall>row \<in> set arr. length row = length xs"
    and cells: "\<forall>i < length ys. \<forall>j < length xs. arr ! i ! j =
       (case find (\<lambda>v. indexOf ys (Number (val_y v)) = int i \<and>
                     indexOf xs (Number (val_x v)) = int j) (rev vals) of
          None \<Rightarrow> '' ''
        | Some v \<Rightarrow> val_v v)"
    by (rule grid_assembled)
  have look: "\<forall>v \<in> set vals.
        0 \<le> indexOf ys (Number (val_y v)) \<and> indexOf ys (Number (val_y v)) < int (length ys) \<and>
        0 \<le> indexOf xs (Number (val_x v)) \<and> indexOf xs (Number (val_x v)) < int (length xs)"
    using lookup_x [OF g(1)] lookup_y [OF g(2)] by simp
  have own: "\<forall>v \<in> set vals.
         arr ! nat (indexOf ys (Number (val_y v))) ! nat (indexOf xs (Number (val_x v))) = val_v v"
    if inj: "\<forall>v \<in> set vals. \<forall>w \<in> set vals. val_x v = val_x w \<and> val_y v = val_y w \<longrightarrow> v = w"
  proof
    fix v assume v: "v \<in> set vals"
    let ?i = "nat (indexOf ys (Number (val_y v)))" and ?j = "nat (indexOf xs (Number (val_x v)))"
    have r: "?i < length ys" "?j < length xs" "int ?i = indexOf ys (Number (val_y v))"
      "int ?j = indexOf xs (Number (val_x v))"
      using look v by auto
    have "arr ! ?i ! ?j =
       (case find (\<lambda>w. indexOf ys (Number (val_y w)) = int ?i \<and>
                     indexOf xs (Number (val_x w)) = int ?j) (rev vals) of
          None \<Rightarrow> '' ''
        | Some w \<Rightarrow> val_v w)"
      using cells r(1,2) by blast
    also have "\<dots> = val_v v"
      unfolding r(3,4) cell_of_value [OF g(1,2) inj v] by simp
    finally show "arr ! ?i ! ?j = val_v v" .
  qed
  have single: "\<forall>row \<in> set arr. length (concat row) = length xs"
    if one: "\<forall>v \<in> set vals. length (val_v v) = 1"
  proof
    fix row assume row: "row \<in> set arr"
    have "\<forall>c \<in> set row. length c = 1"
      using cells_single [OF one g(4,5) cells row] by blast
    then show "length (concat row) = length xs"
      using g(5) row by (simp add: length_concat_single)
  qed
  have own': "(\<forall>v \<in> set vals. \<forall>w \<in> set vals. val_x v = val_x w \<and> val_y v = val_y w \<longrightarrow> v = w) \<longrightarrow>
      (\<forall>v \<in> set vals.
         arr ! nat (indexOf ys (Number (val_y v))) ! nat (indexOf xs (Number (val_x v))) = val_v v)"
    using own by (rule impI)
  have single': "(\<forall>v \<in> set vals. length (val_v v) = 1) \<longrightarrow>
      (\<forall>row \<in> set arr. length (concat row) = length xs)"
    using single by (rule impI)
  show ?thesis
    by (rule exI [of _ xs], rule exI [of _ ys], rule exI [of _ arr])
       (intro conjI g look cells own' single' grid_text_of_arr [OF g(3)])
qed

theorem grid_shape_and_cells_witness:
  "arr_of example_values =
     Some (Inr [[''3'', ''1'', '' '', ''2''], [''4'', '' '', '' '', '' '']])
   \<and> xs_of example_values = Some [Number 0, Number 20, Number (- 1), Number 60]
   \<and> ys_of example_values = Some [Number 0, Number 20]
   \<and> distinct (map (\<lambda>v. (val_x v, val_y v)) example_values)
   \<and> list_all (\<lambda>v. length (val_v v) = 1) example_values
   \<and> (\<exists>arr. arr_of example_values = Some (Inr arr) \<and> length arr = 2 \<and>
          list_all (\<lambda>row. length row = 4 \<and> length (concat row) = 4) arr \<and>
          arr ! 0 ! 3 = ''2'')"
proof -
  have x: "xs_of example_values = Some [Number 0, Number 20, Number (- 1), Number 60]"
    by code_simp
  have y: "ys_of example_values = Some [Number 0, Number 20]"
    by code_simp
  have a: "arr_of example_values =
     Some (Inr [[''3'', ''1'', '' '', ''2''], [''4'', '' '', '' '', '' '']])"
    by code_simp
  have one: "\<forall>v \<in> set example_values. length (val_v v) = 1"
    by (simp add: example_values_def)
  have dist: "distinct (map (\<lambda>v. (val_x v, val_y v)) example_values)"
    by (simp add: example_values_def)
  have inj: "\<forall>v \<in> set example_values. \<forall>w \<in> set example_values.
      val_x v = val_x w \<and> val_y v = val_y w \<longrightarrow> v = w"
    by (simp add: example_values_def)
  have m: "\<lparr>val_x = 60, val_y = 0, val_v = ''2''\<rparr> \<in> set example_values"
    by (simp add: example_values_def)
  have ix: "indexOf [Number 0, Number 20, Number (- 1), Number 60] (Number 60) = 3"
    "indexOf [Number 0, Number 20] (Number 0) = 0"
    by code_simp+
  obtain xs ys arr where g: "xs_of example_values = Some xs" "ys_of example_values = Some ys"
    "arr_of example_values = Some (Inr arr)" "length arr = length ys"
    "\<forall>row \<in> set arr. length row = length xs"
    "(\<forall>v \<in> set example_values. \<forall>w \<in> set example_values.
        val_x v = val_x w \<and> val_y v = val_y w \<longrightarrow> v = w) \<longrightarrow>
      (\<forall>v \<in> set example_values.
         arr ! nat (indexOf ys (Number (val_y v))) ! nat (indexOf xs (Number (val_x v))) = val_v v)"
    "(\<forall>v \<in> set example_values. length (val_v v) = 1) \<longrightarrow>
      (\<forall>row \<in> set arr. length (concat row) = length xs)"
    using grid_shape_and_cells [of example_values] by blast
  have xs: "xs = [Number 0, Number 20, Number (- 1), Number 60]" and ys: "ys = [Number 0, Number 20]"
    using g(1,2) x y by simp_all
  have "\<forall>v \<in> set example_values.
         arr ! nat (indexOf ys (Number (val_y v))) ! nat (indexOf xs (Number (val_x v))) = val_v v"
    using g(6) inj by (rule mp)
  then have "arr ! nat (indexOf ys (Number 0)) ! nat (indexOf xs (Number 60)) = ''2''"
    using m by fastforce
  then have c: "arr ! 0 ! 3 = ''2''"
    unfolding xs ys ix by simp
  have "\<forall>row \<in> set arr. length (concat row) = length xs"
    using g(7) one by (rule mp)
  then have "length arr = 2" "list_all (\<lambda>row. length row = 4 \<and> length (concat row) = 4) arr"
    using g(4,5) xs ys by (simp_all add: list_all_iff)
  then have "\<exists>arr. arr_of example_values = Some (Inr arr) \<and> length arr = 2 \<and>
          list_all (\<lambda>row. length row = 4 \<and> length (concat row) = 4) arr \<and>
          arr ! 0 ! 3 = ''2''"
    using g(3) c by blast
  then show ?thesis
    using x y a dist one by (simp add: list_all_iff)
qed

theorem ragged_rows_counterexample:
  "arr_of [\<lparr>val_x = 0, val_y = 0, val_v = extract_v ''12''\<rparr>,
           \<lparr>val_x = 0, val_y = 20, val_v = extract_v ''3''\<rparr>] =
     Some (Inr [[''12''], [''3'']])
   \<and> grid_text [\<lparr>val_x = 0, val_y = 0, val_v = extract_v ''12''\<rparr>,
                \<lparr>val_x = 0, val_y = 20, val_v = extract_v ''3''\<rparr>] =
     Some (Inr ''12\<newline>3'')
   \<and> length (concat [''12'']) \<noteq> length (concat [''3''])"
  by code_simp

text \<open>
  C8, as amended. With no rectangle there is no value, and the run ends without an
  error: both axis sequences are the one-element array holding \<^verbatim>\<open>undefined\<close>, the grid
  is one blank cell and the text is \<open>" "\<close>.
\<close>

theorem empty_detection_yields_blank_grid:
  "extract_values recognize [] = []
   \<and> xs_of (extract_values recognize []) = Some [Undefined]
   \<and> ys_of (extract_values recognize []) = Some [Undefined]
   \<and> arr_of (extract_values recognize []) = Some (Inr [['' '']])
   \<and> grid_text (extract_values recognize []) = Some (Inr '' '')"
proof -
  have e: "extract_values recognize [] = []"
    by (simp add: extract_values_def values_loop.simps)
  have "xs_of [] = Some [Undefined]" "ys_of [] = Some [Undefined]"
    "arr_of [] = Some (Inr [['' '']])" "grid_text [] = Some (Inr '' '')"
    by code_simp+
  then show ?thesis
    by (simp add: e)
qed

theorem empty_detection_yields_blank_grid_witness:
  "grid_text (extract_values (\<lambda>r. ''8'') []) = Some (Inr '' '')"
  using empty_detection_yields_blank_grid [of "\<lambda>r. ''8''"] by blast

theorem empty_detection_counterexample:
  "grid_text [] \<noteq> None \<and> grid_text [] \<noteq> Some (Inl TypeError) \<and> grid_text [] = Some (Inr '' '')"
  by code_simp

text \<open>
  C1, as amended. On the example of the specification the unit of the x axis is 20,
  the x-axis sequence has the four entries 0, 20, gap, 60 and the y-axis sequence the
  two entries 0, 20. The text has two rows of four characters: \<open>"31 2"\<close> and \<open>"4   "\<close>.
\<close>

theorem example_grid_text:
  "min_delta_of (uniq_x example_values) = 20
   \<and> xs_of example_values = Some [Number 0, Number 20, Number (- 1), Number 60]
   \<and> ys_of example_values = Some [Number 0, Number 20]
   \<and> arr_of example_values =
       Some (Inr [[''3'', ''1'', '' '', ''2''], [''4'', '' '', '' '', '' '']])
   \<and> grid_text example_values = Some (Inr ''31 2\<newline>4   '')"
  by code_simp

theorem example_grid_text_counterexample:
  "arr_of example_values =
     Some (Inr [[''3'', ''1'', '' '', ''2''], [''4'', '' '', '' '', '' '']])
   \<and> map concat [[''3'', ''1'', '' '', ''2''], [''4'', '' '', '' '', '' '']] = [''31 2'', ''4   '']
   \<and> ''31 2'' \<noteq> ''3 1 2''
   \<and> grid_text example_values \<noteq> Some (Inr ''3 1 2\<newline>4    '')"
  by code_simp

section \<open>Degenerate axes\<close>

lemma length_uniq_x: "length (uniq_x vals) = card (val_x ` set vals)"
  by (simp add: uniq_x_eq)

lemma length_uniq_y: "length (uniq_y vals) = card (val_y ` set vals)"
  by (simp add: uniq_y_eq)

lemma build_axis_short:
  "length u < 2 \<Longrightarrow> build_axis u = Some [first_elem u]"
  by (simp add: build_axis_def axis_loop_short)

text \<open>
  C9. An axis with fewer than two distinct positions has exactly one grid index: the
  axis sequence is the one-element array holding the position, or \<^verbatim>\<open>undefined\<close> when
  there is none. On the x axis every row of the grid then has one cell, on the y axis
  the grid has one row, and the run ends with a text, not with an error.
\<close>

theorem degenerate_axis_single_index:
  "(card (val_x ` set vals) < 2 \<longrightarrow>
      xs_of vals = Some [first_elem (uniq_x vals)] \<and>
      (\<exists>arr str. arr_of vals = Some (Inr arr) \<and> (\<forall>row \<in> set arr. length row = 1) \<and>
         grid_text vals = Some (Inr str)))
   \<and> (card (val_y ` set vals) < 2 \<longrightarrow>
      ys_of vals = Some [first_elem (uniq_y vals)] \<and>
      (\<exists>arr str. arr_of vals = Some (Inr arr) \<and> length arr = 1 \<and>
         grid_text vals = Some (Inr str)))"
proof -
  obtain xs ys arr where g:
    "xs_of vals = Some xs" "ys_of vals = Some ys" "arr_of vals = Some (Inr arr)"
    "length arr = length ys" "\<forall>row \<in> set arr. length row = length xs"
    by (rule grid_assembled)
  have t: "grid_text vals = Some (Inr (join [CHR 0x0A] (map concat arr)))"
    using g(3) by (rule grid_text_of_arr)
  have x: "xs_of vals = Some [first_elem (uniq_x vals)] \<and>
      (\<exists>arr str. arr_of vals = Some (Inr arr) \<and> (\<forall>row \<in> set arr. length row = 1) \<and>
         grid_text vals = Some (Inr str))"
    if "card (val_x ` set vals) < 2"
  proof -
    have e: "xs_of vals = Some [first_elem (uniq_x vals)]"
      using that by (simp add: xs_of_def build_axis_short length_uniq_x)
    then have "length xs = 1" using g(1) by simp
    then show ?thesis using e g(3,5) t by auto
  qed
  have y: "ys_of vals = Some [first_elem (uniq_y vals)] \<and>
      (\<exists>arr str. arr_of vals = Some (Inr arr) \<and> length arr = 1 \<and>
         grid_text vals = Some (Inr str))"
    if "card (val_y ` set vals) < 2"
  proof -
    have e: "ys_of vals = Some [first_elem (uniq_y vals)]"
      using that by (simp add: ys_of_def build_axis_short length_uniq_y)
    then have "length ys = 1" using g(2) by simp
    then show ?thesis using e g(3,4) t by auto
  qed
  show ?thesis
    using x y by blast
qed

theorem degenerate_axis_single_index_witness:
  "card (val_x ` set [\<lparr>val_x = 5, val_y = 7, val_v = ''1''\<rparr>, \<lparr>val_x = 5, val_y = 30, val_v = ''2''\<rparr>]) < 2
   \<and> xs_of [\<lparr>val_x = 5, val_y = 7, val_v = ''1''\<rparr>, \<lparr>val_x = 5, val_y = 30, val_v = ''2''\<rparr>] = Some [Number 5]
   \<and> card (val_y ` set [\<lparr>val_x = 5, val_y = 7, val_v = ''1''\<rparr>, \<lparr>val_x = 9, val_y = 7, val_v = ''2''\<rparr>]) < 2
   \<and> ys_of [\<lparr>val_x = 5, val_y = 7, val_v = ''1''\<rparr>, \<lparr>val_x = 9, val_y = 7, val_v = ''2''\<rparr>] = Some [Number 7]
   \<and> card (val_x ` set ([] :: extracted_value list)) < 2
   \<and> xs_of [] = Some [Undefined]"
proof -
  let ?a = "[\<lparr>val_x = 5, val_y = 7, val_v = ''1''\<rparr>, \<lparr>val_x = 5, val_y = 30, val_v = ''2''\<rparr>]"
  let ?b = "[\<lparr>val_x = 5, val_y = 7, val_v = ''1''\<rparr>, \<lparr>val_x = 9, val_y = 7, val_v = ''2''\<rparr>]"
  have ca: "card (val_x ` set ?a) < 2" and cb: "card (val_y ` set ?b) < 2"
    and cn: "card (val_x ` set ([] :: extracted_value list)) < 2"
    by simp_all
  have f: "first_elem (uniq_x ?a) = Number 5" "first_elem (uniq_y ?b) = Number 7"
    "first_elem (uniq_x []) = Undefined"
    by code_simp+
  show ?thesis
    using degenerate_axis_single_index [of ?a] degenerate_axis_single_index [of ?b]
      degenerate_axis_single_index [of "[]"] ca cb cn
    by (simp only: f)
qed

section \<open>Looking positions up\<close>

text \<open>
  C10. When no position is negative, every lookup of a value's position in its axis
  sequence finds it: the index is not -1, it lies inside the sequence, the entry there
  is the position itself and so is not the gap sentinel -1, and the position stands in
  the sequence exactly once.
\<close>

theorem lookup_finds_real_slot:
  assumes "\<forall>v \<in> set vals. 0 \<le> val_x v \<and> 0 \<le> val_y v"
  shows "\<exists>xs ys. xs_of vals = Some xs \<and> ys_of vals = Some ys \<and>
     (\<forall>v \<in> set vals.
        indexOf xs (Number (val_x v)) \<noteq> - 1 \<and>
        0 \<le> indexOf xs (Number (val_x v)) \<and> indexOf xs (Number (val_x v)) < int (length xs) \<and>
        xs ! nat (indexOf xs (Number (val_x v))) = Number (val_x v) \<and>
        xs ! nat (indexOf xs (Number (val_x v))) \<noteq> Number (- 1) \<and>
        count_list xs (Number (val_x v)) = 1 \<and>
        indexOf ys (Number (val_y v)) \<noteq> - 1 \<and>
        0 \<le> indexOf ys (Number (val_y v)) \<and> indexOf ys (Number (val_y v)) < int (length ys) \<and>
        ys ! nat (indexOf ys (Number (val_y v))) = Number (val_y v) \<and>
        ys ! nat (indexOf ys (Number (val_y v))) \<noteq> Number (- 1) \<and>
        count_list ys (Number (val_y v)) = 1)"
proof -
  obtain xs where xs: "xs_of vals = Some xs"
    using xs_of_total by blast
  obtain ys where ys: "ys_of vals = Some ys"
    using ys_of_total by blast
  have "indexOf xs (Number (val_x v)) \<noteq> - 1 \<and>
        0 \<le> indexOf xs (Number (val_x v)) \<and> indexOf xs (Number (val_x v)) < int (length xs) \<and>
        xs ! nat (indexOf xs (Number (val_x v))) = Number (val_x v) \<and>
        xs ! nat (indexOf xs (Number (val_x v))) \<noteq> Number (- 1) \<and>
        count_list xs (Number (val_x v)) = 1 \<and>
        indexOf ys (Number (val_y v)) \<noteq> - 1 \<and>
        0 \<le> indexOf ys (Number (val_y v)) \<and> indexOf ys (Number (val_y v)) < int (length ys) \<and>
        ys ! nat (indexOf ys (Number (val_y v))) = Number (val_y v) \<and>
        ys ! nat (indexOf ys (Number (val_y v))) \<noteq> Number (- 1) \<and>
        count_list ys (Number (val_y v)) = 1" if v: "v \<in> set vals" for v
  proof -
    have nx: "val_x v \<noteq> - 1" and ny: "val_y v \<noteq> - 1"
      using assms v by auto
    have cx: "count_list xs (Number (val_x v)) = 1"
      using build_axis_count [OF xs [unfolded xs_of_def] uniq_x_props(1) nx] v
      by (simp add: uniq_x_props(2))
    have cy: "count_list ys (Number (val_y v)) = 1"
      using build_axis_count [OF ys [unfolded ys_of_def] uniq_y_props(1) ny] v
      by (simp add: uniq_y_props(2))
    show ?thesis
      using lookup_x [OF xs v] lookup_y [OF ys v] nx ny cx cy by simp
  qed
  then show ?thesis
    using xs ys by blast
qed

theorem lookup_finds_real_slot_witness:
  "list_all (\<lambda>v. 0 \<le> val_x v \<and> 0 \<le> val_y v) example_values \<and>
   indexOf [Number 0, Number 20, Number (- 1), Number 60] (Number 60) = 3 \<and>
   count_list [Number 0, Number 20, Number (- 1), Number 60] (Number 60) = 1"
proof -
  have h: "\<forall>v \<in> set example_values. 0 \<le> val_x v \<and> 0 \<le> val_y v"
    by (simp add: example_values_def)
  have x: "xs_of example_values = Some [Number 0, Number 20, Number (- 1), Number 60]"
    by code_simp
  have m: "\<lparr>val_x = 60, val_y = 0, val_v = ''2''\<rparr> \<in> set example_values"
    by (simp add: example_values_def)
  obtain xs where "xs_of example_values = Some xs"
    "\<forall>v \<in> set example_values. count_list xs (Number (val_x v)) = 1"
    using lookup_finds_real_slot [OF h] by blast
  then have "count_list [Number 0, Number 20, Number (- 1), Number 60] (Number 60) = 1"
    using x m by fastforce
  moreover have "indexOf [Number 0, Number 20, Number (- 1), Number 60] (Number 60) = 3"
    by code_simp
  ultimately show ?thesis
    using h by (simp add: list_all_iff)
qed

section \<open>Order of the input\<close>

text \<open>
  C6. Two inputs with the same set of positions on an axis give the same sorted distinct
  positions and the same axis sequence on it, whatever the order and the multiplicity
  of the positions in the inputs; and the sequence is always built.
\<close>

theorem axis_depends_on_position_set:
  "(val_x ` set vals1 = val_x ` set vals2 \<longrightarrow>
      uniq_x vals1 = uniq_x vals2 \<and> (\<exists>xs. xs_of vals1 = Some xs \<and> xs_of vals2 = Some xs))
   \<and> (val_y ` set vals1 = val_y ` set vals2 \<longrightarrow>
      uniq_y vals1 = uniq_y vals2 \<and> (\<exists>ys. ys_of vals1 = Some ys \<and> ys_of vals2 = Some ys))"
proof (intro conjI impI)
  assume "val_x ` set vals1 = val_x ` set vals2"
  then show u: "uniq_x vals1 = uniq_x vals2"
    by (simp add: uniq_x_eq)
  show "\<exists>xs. xs_of vals1 = Some xs \<and> xs_of vals2 = Some xs"
    using xs_of_total [of vals1] by (auto simp: xs_of_def u)
next
  assume "val_y ` set vals1 = val_y ` set vals2"
  then show u: "uniq_y vals1 = uniq_y vals2"
    by (simp add: uniq_y_eq)
  show "\<exists>ys. ys_of vals1 = Some ys \<and> ys_of vals2 = Some ys"
    using ys_of_total [of vals1] by (auto simp: ys_of_def u)
qed

theorem axis_depends_on_position_set_witness:
  "xs_of [\<lparr>val_x = 60, val_y = 0, val_v = ''2''\<rparr>, \<lparr>val_x = 0, val_y = 5, val_v = ''3''\<rparr>,
          \<lparr>val_x = 20, val_y = 9, val_v = ''1''\<rparr>, \<lparr>val_x = 60, val_y = 20, val_v = ''4''\<rparr>] =
   xs_of example_values
   \<and> ys_of [\<lparr>val_x = 1, val_y = 20, val_v = ''2''\<rparr>, \<lparr>val_x = 2, val_y = 0, val_v = ''3''\<rparr>] =
     ys_of example_values"
proof -
  let ?a = "[\<lparr>val_x = 60, val_y = 0, val_v = ''2''\<rparr>, \<lparr>val_x = 0, val_y = 5, val_v = ''3''\<rparr>,
          \<lparr>val_x = 20, val_y = 9, val_v = ''1''\<rparr>, \<lparr>val_x = 60, val_y = 20, val_v = ''4''\<rparr>]"
  let ?b = "[\<lparr>val_x = 1, val_y = 20, val_v = ''2''\<rparr>, \<lparr>val_x = 2, val_y = 0, val_v = ''3''\<rparr>]"
  have "val_x ` set ?a = val_x ` set example_values"
    by (auto simp: example_values_def)
  moreover have "val_y ` set ?b = val_y ` set example_values"
    by (auto simp: example_values_def)
  ultimately show ?thesis
    using axis_depends_on_position_set [of ?a example_values]
      axis_depends_on_position_set [of ?b example_values]
    by auto
qed

section \<open>The unit and exact multiples of it\<close>

lemma min_delta_of_eq:
  assumes "2 \<le> length u" "\<forall>d \<in> set (consecutive_differences u). d \<le> MAX_VALUE"
  shows "min_delta_of u = Min (set (consecutive_differences u))"
proof -
  let ?D = "set (consecutive_differences u)"
  have D: "?D = (\<lambda>k. u ! k - u ! (k - 1)) ` {1..<length u}"
    by (simp add: consecutive_differences_eq)
  have ne: "?D \<noteq> {}"
    using assms(1) by (simp add: D)
  have "Min ?D \<le> MAX_VALUE"
    using assms(2) ne by (meson List.finite_set Min_in)
  moreover have "Min (insert MAX_VALUE ?D) = min MAX_VALUE (Min ?D)"
    using ne by (intro Min_insert) simp_all
  ultimately have "Min (insert MAX_VALUE ?D) = Min ?D"
    by (simp only: min_absorb2)
  then show ?thesis
    by (simp add: min_delta_of_def min_delta_loop_eq D)
qed

lemma js_round_multiple:
  assumes "m \<noteq> 0"
  shows "js_round (of_int (k * m) / of_int m) = k"
proof -
  have "(of_int (k * m) / of_int m :: rat) = of_int k"
    using assms by simp
  moreover have "\<lfloor>(of_int k :: rat) + 1 / 2\<rfloor> = k"
    by (rule floor_unique) simp_all
  ultimately show ?thesis
    by (simp only: js_round_def)
qed

lemma indexOf_append_first:
  assumes "a \<notin> set pre"
  shows "indexOf (pre @ a # post) a = int (length pre)"
proof -
  have "takeWhile (\<lambda>b. b \<noteq> a) (pre @ a # post) = pre"
    using assms by (induction pre) auto
  then show ?thesis
    by (simp add: indexOf_eq)
qed

lemma build_axis_split:
  assumes "sorted_wrt (<) (as @ a # b # bs)"
  shows "\<exists>F. set F \<subseteq> insert (Number (- 1)) (Number ` set as) \<and>
     build_axis (as @ a # b # bs) =
       Some (F @ Number a #
             replicate (nat (js_round (of_int (b - a) / of_int (min_delta_of (as @ a # b # bs))) - 1))
               (Number (- 1)) @
             Number b # walk (min_delta_of (as @ a # b # bs)) b bs)"
proof (cases as)
  case Nil
  have "build_axis (a # b # bs) = Some (Number a # walk (min_delta_of (a # b # bs)) a (b # bs))"
    using assms unfolding Nil append_Nil by (rule build_axis_Cons)
  then show ?thesis
    by (intro exI [of _ "[]"]) (simp add: Nil)
next
  case (Cons c cs)
  let ?m = "min_delta_of (as @ a # b # bs)"
  let ?F = "Number c # walk ?m c cs @
     replicate (nat (js_round (of_int (a - last (c # cs)) / of_int ?m) - 1)) (Number (- 1))"
  have "build_axis (c # cs @ a # b # bs) =
      Some (Number c # walk (min_delta_of (c # cs @ a # b # bs)) c (cs @ a # b # bs))"
    using assms unfolding Cons append_Cons by (rule build_axis_Cons)
  then have "build_axis (as @ a # b # bs) =
       Some (?F @ Number a #
             replicate (nat (js_round (of_int (b - a) / of_int ?m) - 1)) (Number (- 1)) @
             Number b # walk ?m b bs)"
    by (simp add: Cons walk_append)
  moreover have "set ?F \<subseteq> insert (Number (- 1)) (Number ` set as)"
    using walk_set_upper [of ?m c cs] by (auto simp: Cons)
  ultimately show ?thesis
    by blast
qed

lemma exact_gap_core:
  assumes s: "sorted_wrt (<) (as @ a # b # bs)" and nn: "0 \<le> a"
    and k: "1 \<le> k" "b - a = k * min_delta_of (as @ a # b # bs)"
  shows "\<exists>xs. build_axis (as @ a # b # bs) = Some xs \<and>
     indexOf xs (Number b) = indexOf xs (Number a) + k \<and>
     0 \<le> indexOf xs (Number a) \<and> indexOf xs (Number b) < int (length xs) \<and>
     (\<forall>j. indexOf xs (Number a) < j \<and> j < indexOf xs (Number b) \<longrightarrow>
          xs ! nat j = Number (- 1))"
proof -
  let ?m = "min_delta_of (as @ a # b # bs)"
  let ?gap = "Number (- 1)"
  have m: "?m \<noteq> 0"
    using min_delta_of_pos [OF s] by simp
  have g: "nat (js_round (of_int (b - a) / of_int ?m) - 1) = nat (k - 1)"
    using js_round_multiple [OF m, of k] by (simp only: k(2))
  obtain F where F: "set F \<subseteq> insert ?gap (Number ` set as)"
    and xs: "build_axis (as @ a # b # bs) =
       Some (F @ Number a # replicate (nat (k - 1)) ?gap @ Number b # walk ?m b bs)"
    using build_axis_split [OF s] unfolding g by blast
  let ?xs = "F @ Number a # replicate (nat (k - 1)) ?gap @ Number b # walk ?m b bs"
  have lt: "\<forall>x \<in> set as. x < a \<and> x < b" and ab: "a < b"
    using s by (auto simp: sorted_wrt_append)
  have aF: "Number a \<notin> set F"
    using F lt nn by auto
  have bF: "Number b \<notin> set (F @ Number a # replicate (nat (k - 1)) ?gap)"
    using F lt nn ab by auto
  have ia: "indexOf ?xs (Number a) = int (length F)"
    using aF by (rule indexOf_append_first)
  have "indexOf ((F @ Number a # replicate (nat (k - 1)) ?gap) @ Number b # walk ?m b bs) (Number b) =
        int (length (F @ Number a # replicate (nat (k - 1)) ?gap))"
    using bF by (rule indexOf_append_first)
  then have ib: "indexOf ?xs (Number b) = int (length F) + k"
    using k(1) by simp
  have between: "?xs ! nat j = ?gap" if "int (length F) < j" "j < int (length F) + k" for j
  proof -
    define d where "d = nat j - length F - 1"
    have "nat j = length F + Suc d \<and> d < nat (k - 1)"
      unfolding d_def using that by linarith
    then show ?thesis
      by (simp add: nth_append)
  qed
  have r1: "indexOf ?xs (Number b) = indexOf ?xs (Number a) + k"
    by (simp only: ia ib)
  have r2: "0 \<le> indexOf ?xs (Number a)"
    by (simp only: ia of_nat_0_le_iff)
  have r3: "indexOf ?xs (Number b) < int (length ?xs)"
    using k(1) by (simp only: ib) simp
  have r4: "\<forall>j. indexOf ?xs (Number a) < j \<and> j < indexOf ?xs (Number b) \<longrightarrow>
          ?xs ! nat j = Number (- 1)"
    unfolding ia ib using between by blast
  show ?thesis
    by (intro exI [of _ ?xs] conjI xs r1 r2 r3 r4)
qed

lemma nth_split_consecutive:
  assumes "1 \<le> i" "i < length u"
  shows "u = take (i - 1) u @ u ! (i - 1) # u ! i # drop (i + 1) u"
proof -
  have "u = take (i - 1) u @ u ! (i - 1) # drop (Suc (i - 1)) u"
    using assms by (intro id_take_nth_drop) simp
  moreover have "drop (Suc (i - 1)) u = u ! i # drop (i + 1) u"
    using assms by (simp add: Cons_nth_drop_Suc)
  ultimately show ?thesis by simp
qed

lemma differences_bounded:
  assumes "\<forall>p \<in> set u. 0 \<le> p \<and> p < 2 ^ 31"
  shows "\<forall>d \<in> set (consecutive_differences u). d \<le> MAX_VALUE"
proof
  fix d assume "d \<in> set (consecutive_differences u)"
  then obtain k where k: "1 \<le> k" "k < length u" "d = u ! k - u ! (k - 1)"
    by (auto simp: consecutive_differences_eq)
  have "0 \<le> u ! (k - 1)" "u ! k < 2 ^ 31"
    using assms k(1,2) by (simp_all add: less_imp_diff_less)
  then have "d < 2 ^ 31"
    using k(3) by simp
  moreover have "(2 :: int) ^ 31 \<le> MAX_VALUE"
    by (simp add: MAX_VALUE_def)
  ultimately show "d \<le> MAX_VALUE"
    by simp
qed

text \<open>
  C2. Take an axis whose sorted distinct positions \<open>u\<close> are at least two non-negative
  32-bit integers. Its unit is the least of the differences of consecutive positions.
  The axis sequence is built, and for every two consecutive positions whose difference
  is exactly \<open>k\<close> times the unit, \<open>k \<ge> 1\<close>, the later position is found \<open>k\<close> indices after
  the earlier one, and each of the \<open>k - 1\<close> indices between them holds the gap value -1.
\<close>

theorem unit_is_min_gap_and_exact_gaps:
  assumes "u = uniq_x vals \<or> u = uniq_y vals"
    and "\<forall>p \<in> set u. 0 \<le> p \<and> p < 2 ^ 31"
    and "2 \<le> length u"
  shows "min_delta_of u = Min (set (consecutive_differences u)) \<and>
     (\<exists>xs. build_axis u = Some xs \<and>
        (u = uniq_x vals \<longrightarrow> xs_of vals = Some xs) \<and>
        (u = uniq_y vals \<longrightarrow> ys_of vals = Some xs) \<and>
        (\<forall>i k. 1 \<le> i \<and> i < length u \<and> 1 \<le> k \<and>
                u ! i - u ! (i - 1) = k * min_delta_of u \<longrightarrow>
           indexOf xs (Number (u ! i)) = indexOf xs (Number (u ! (i - 1))) + k \<and>
           0 \<le> indexOf xs (Number (u ! (i - 1))) \<and>
           indexOf xs (Number (u ! i)) < int (length xs) \<and>
           (\<forall>j. indexOf xs (Number (u ! (i - 1))) < j \<and> j < indexOf xs (Number (u ! i)) \<longrightarrow>
                xs ! nat j = Number (- 1))))"
proof -
  have s: "sorted_wrt (<) u"
    using assms(1) uniq_x_props(1) uniq_y_props(1) by blast
  have unit: "min_delta_of u = Min (set (consecutive_differences u))"
    using assms(3) differences_bounded [OF assms(2)] by (rule min_delta_of_eq)
  obtain xs where xs: "build_axis u = Some xs"
    using build_axis_total [OF s] by blast
  have gaps: "indexOf xs (Number (u ! i)) = indexOf xs (Number (u ! (i - 1))) + k \<and>
           0 \<le> indexOf xs (Number (u ! (i - 1))) \<and>
           indexOf xs (Number (u ! i)) < int (length xs) \<and>
           (\<forall>j. indexOf xs (Number (u ! (i - 1))) < j \<and> j < indexOf xs (Number (u ! i)) \<longrightarrow>
                xs ! nat j = Number (- 1))"
    if h: "1 \<le> i \<and> i < length u \<and> 1 \<le> k \<and> u ! i - u ! (i - 1) = k * min_delta_of u" for i k
  proof -
    let ?as = "take (i - 1) u" and ?bs = "drop (i + 1) u"
    have sp: "u = ?as @ u ! (i - 1) # u ! i # ?bs"
      using h by (intro nth_split_consecutive) simp_all
    have nn: "0 \<le> u ! (i - 1)"
      using assms(2) h by (simp add: less_imp_diff_less)
    have s': "sorted_wrt (<) (?as @ u ! (i - 1) # u ! i # ?bs)"
      using s sp by simp
    have k': "u ! i - u ! (i - 1) = k * min_delta_of (?as @ u ! (i - 1) # u ! i # ?bs)"
      using h sp by simp
    have "\<exists>ys. build_axis (?as @ u ! (i - 1) # u ! i # ?bs) = Some ys \<and>
       indexOf ys (Number (u ! i)) = indexOf ys (Number (u ! (i - 1))) + k \<and>
       0 \<le> indexOf ys (Number (u ! (i - 1))) \<and> indexOf ys (Number (u ! i)) < int (length ys) \<and>
       (\<forall>j. indexOf ys (Number (u ! (i - 1))) < j \<and> j < indexOf ys (Number (u ! i)) \<longrightarrow>
            ys ! nat j = Number (- 1))"
      using s' nn _ k' by (rule exact_gap_core) (use h in simp)
    then show ?thesis
      unfolding sp [symmetric] xs by simp
  qed
  have "(u = uniq_x vals \<longrightarrow> xs_of vals = Some xs) \<and> (u = uniq_y vals \<longrightarrow> ys_of vals = Some xs)"
    using xs by (auto simp: xs_of_def ys_of_def)
  then show ?thesis
    using unit xs gaps by blast
qed

theorem unit_is_min_gap_and_exact_gaps_witness:
  "uniq_x example_values = [0, 20, 60]
   \<and> list_all (\<lambda>p. 0 \<le> p \<and> p < 2 ^ 31) [0, 20, 60 :: int]
   \<and> min_delta_of [0, 20, 60] = Min (set (consecutive_differences [0, 20, 60]))
   \<and> consecutive_differences [0, 20, 60] = [20, 40]
   \<and> build_axis [0, 20, 60] = Some [Number 0, Number 20, Number (- 1), Number 60]
   \<and> indexOf [Number 0, Number 20, Number (- 1), Number 60] (Number 60) =
       indexOf [Number 0, Number 20, Number (- 1), Number 60] (Number 20) + 2"
proof -
  have u: "uniq_x example_values = [0, 20, 60]"
    by code_simp
  have b: "\<forall>p \<in> set [0, 20, 60 :: int]. 0 \<le> p \<and> p < 2 ^ 31"
    by simp
  have a: "build_axis [0, 20, 60] = Some [Number 0, Number 20, Number (- 1), Number 60]"
    by code_simp
  have m: "min_delta_of [0, 20, 60] = 20"
    by code_simp
  have c: "consecutive_differences [0, 20, 60] = [20, 40]"
    by code_simp
  have h1: "[0, 20, 60] = uniq_x example_values \<or> [0, 20, 60] = uniq_y example_values"
    using u by simp
  have h3: "2 \<le> length [0, 20, 60 :: int]"
    by simp
  note t = unit_is_min_gap_and_exact_gaps [OF h1 b h3]
  from t have t1: "min_delta_of [0, 20, 60] = Min (set (consecutive_differences [0, 20, 60]))"
    by (rule conjunct1)
  from t obtain xs where x: "build_axis [0, 20, 60] = Some xs"
    and g: "\<forall>i k. 1 \<le> i \<and> i < length [0, 20, 60 :: int] \<and> 1 \<le> k \<and>
                [0, 20, 60] ! i - [0, 20, 60] ! (i - 1) = k * min_delta_of [0, 20, 60] \<longrightarrow>
           indexOf xs (Number ([0, 20, 60] ! i)) = indexOf xs (Number ([0, 20, 60] ! (i - 1))) + k \<and>
           0 \<le> indexOf xs (Number ([0, 20, 60] ! (i - 1))) \<and>
           indexOf xs (Number ([0, 20, 60] ! i)) < int (length xs) \<and>
           (\<forall>j. indexOf xs (Number ([0, 20, 60] ! (i - 1))) < j \<and>
                j < indexOf xs (Number ([0, 20, 60] ! i)) \<longrightarrow>
                xs ! nat j = Number (- 1))"
    by (elim conjE exE)
  have "indexOf xs (Number ([0, 20, 60] ! 2)) = indexOf xs (Number ([0, 20, 60] ! (2 - 1))) + 2"
    using g [rule_format, of 2 2] by (simp add: m)
  then have "indexOf [Number 0, Number 20, Number (- 1), Number 60] (Number 60) =
       indexOf [Number 0, Number 20, Number (- 1), Number 60] (Number 20) + 2"
    using x a by simp
  then show ?thesis
    using u a c t1 by (simp add: list_all_iff)
qed

section \<open>The value extractor and the characters of the text\<close>

lemma extract_v_no_digit:
  assumes "\<forall>c \<in> set text. \<not> is_digit c"
  shows "extract_v text = ''?''"
proof -
  have d: "dropWhile (\<lambda>c. \<not> is_digit c) text = []"
    using assms by simp
  show ?thesis
    unfolding extract_v_def match_digits_def d by simp
qed

lemma match_digits_eq:
  "match_digits text =
     (if dropWhile (\<lambda>c. \<not> is_digit c) text = [] then None
      else Some (takeWhile is_digit (dropWhile (\<lambda>c. \<not> is_digit c) text)))"
  by (cases "dropWhile (\<lambda>c. \<not> is_digit c) text")
     (simp_all only: match_digits_def list.case if_True if_False list.distinct simp_thms)

lemma dropWhile_head:
  "(case dropWhile P bs of [] \<Rightarrow> True | c # cs \<Rightarrow> \<not> P c)"
proof (cases "dropWhile P bs = []")
  case True
  then show ?thesis by (simp only: list.case)
next
  case False
  then have "\<not> P (hd (dropWhile P bs))"
    by (rule hd_dropWhile)
  then show ?thesis
    using False by (cases "dropWhile P bs") simp_all
qed

lemma extract_v_digit_run:
  assumes "\<exists>c \<in> set text. is_digit c"
  shows "\<exists>pre post. text = pre @ extract_v text @ post \<and> (\<forall>c \<in> set pre. \<not> is_digit c) \<and>
     extract_v text \<noteq> [] \<and> (\<forall>c \<in> set (extract_v text). is_digit c) \<and>
     (case post of [] \<Rightarrow> True | c # cs \<Rightarrow> \<not> is_digit c)"
proof -
  let ?pre = "takeWhile (\<lambda>c. \<not> is_digit c) text"
  let ?rest = "dropWhile (\<lambda>c. \<not> is_digit c) text"
  let ?m = "takeWhile is_digit ?rest"
  let ?post = "dropWhile is_digit ?rest"
  have ne: "?rest \<noteq> []"
    using assms by (simp add: dropWhile_eq_Nil_conv)
  have "\<not> \<not> is_digit (hd ?rest)"
    using ne by (rule hd_dropWhile)
  then have h: "is_digit (hd ?rest)"
    by (rule notnotD)
  have m: "?m \<noteq> []"
    unfolding takeWhile_eq_Nil_iff using ne h by (rule_tac notI) (erule disjE, simp_all)
  have e: "extract_v text = ?m"
    unfolding extract_v_def match_digits_eq using ne m by (simp only: if_False option.case)
  have t: "text = ?pre @ ?m @ ?post"
    by (simp only: takeWhile_dropWhile_id)
  have p: "\<forall>c \<in> set ?pre. \<not> is_digit c"
    by (rule ballI) (erule set_takeWhileD [THEN conjunct2])
  have d: "\<forall>c \<in> set ?m. is_digit c"
    by (rule ballI) (erule set_takeWhileD [THEN conjunct2])
  have q: "(case ?post of [] \<Rightarrow> True | c # cs \<Rightarrow> \<not> is_digit c)"
    by (rule dropWhile_head)
  show ?thesis
    unfolding e by (rule exI [of _ ?pre], rule exI [of _ ?post]) (intro conjI t p m d q)
qed

lemma digits_subset: "set ''0123456789'' \<subseteq> set ''0123456789?''"
  by simp

lemma alphabet_subset: "set ''0123456789?'' \<subseteq> set ''0123456789? ''"
  by simp

lemma extract_v_chars:
  "set (extract_v text) \<subseteq> set ''0123456789?'' \<and> extract_v text \<noteq> []"
proof (cases "\<exists>c \<in> set text. is_digit c")
  case True
  from extract_v_digit_run [OF True]
  have ne: "extract_v text \<noteq> []" and d: "\<forall>c \<in> set (extract_v text). is_digit c"
    by blast+
  have "set (extract_v text) \<subseteq> set ''0123456789''"
    using d unfolding is_digit_def by blast
  then have "set (extract_v text) \<subseteq> set ''0123456789?''"
    using digits_subset by (rule order_trans)
  then show ?thesis
    using ne by (rule conjI)
next
  case False
  then have "\<forall>c \<in> set text. \<not> is_digit c"
    by blast
  then have "extract_v text = ''?''"
    by (rule extract_v_no_digit)
  then show ?thesis
    by simp
qed

lemma extract_values_chars:
  assumes "v \<in> set (extract_values recognize rectangles)"
  shows "set (val_v v) \<subseteq> set ''0123456789?'' \<and> val_v v \<noteq> []"
proof -
  have "v \<in> (\<lambda>k. \<lparr>val_x = rect_x (rectangles ! k), val_y = rect_y (rectangles ! k),
                       val_v = extract_v (recognize (rectangles ! k))\<rparr>) `
          set (filter (\<lambda>k. \<forall>j \<in> set [0..<k]. \<not> overlap (rectangles ! k) (rectangles ! j))
                 [0..<length rectangles])"
    using assms unfolding extract_values_def values_loop_append by (simp only: append_Nil set_map)
  then obtain k where "v = \<lparr>val_x = rect_x (rectangles ! k), val_y = rect_y (rectangles ! k),
                       val_v = extract_v (recognize (rectangles ! k))\<rparr>"
    by (rule imageE)
  then have "val_v v = extract_v (recognize (rectangles ! k))"
    by simp
  then show ?thesis
    using extract_v_chars [of "recognize (rectangles ! k)"] by simp
qed

lemma cell_blank_or_value:
  assumes "length arr = length ys" "\<forall>row \<in> set arr. length row = length xs"
    and "\<forall>i < length ys. \<forall>j < length xs. arr ! i ! j =
       (case find (P i j) (rev vals) of None \<Rightarrow> '' '' | Some v \<Rightarrow> val_v v)"
    and "row \<in> set arr" "c \<in> set row"
  shows "c = '' '' \<or> (\<exists>v \<in> set vals. c = val_v v)"
proof -
  obtain i where i: "i < length arr" "row = arr ! i"
    using assms(4) by (auto simp: in_set_conv_nth)
  obtain j where j: "j < length row" "c = row ! j"
    using assms(5) by (auto simp: in_set_conv_nth)
  have "j < length xs" using assms(2,4) j(1) by simp
  then have c: "c = (case find (P i j) (rev vals) of None \<Rightarrow> '' '' | Some v \<Rightarrow> val_v v)"
    using assms(1,3) i j by simp
  show ?thesis
  proof (cases "find (P i j) (rev vals)")
    case None
    then show ?thesis using c by simp
  next
    case (Some v)
    then have "v \<in> set vals"
      using find_SomeD [of "P i j" "rev vals" v] by simp
    then show ?thesis using c Some by auto
  qed
qed

lemma grid_text_chars:
  assumes "\<forall>v \<in> set vals. set (val_v v) \<subseteq> S" "CHR '' '' \<in> S"
  shows "\<exists>str. grid_text vals = Some (Inr str) \<and> set str \<subseteq> insert (CHR 0x0A) S"
proof -
  obtain xs ys arr where g:
    "xs_of vals = Some xs" "ys_of vals = Some ys" "arr_of vals = Some (Inr arr)"
    "length arr = length ys" "\<forall>row \<in> set arr. length row = length xs"
    and cells: "\<forall>i < length ys. \<forall>j < length xs. arr ! i ! j =
       (case find (\<lambda>v. indexOf ys (Number (val_y v)) = int i \<and>
                     indexOf xs (Number (val_x v)) = int j) (rev vals) of
          None \<Rightarrow> '' ''
        | Some v \<Rightarrow> val_v v)"
    by (rule grid_assembled)
  have rows: "set (concat row) \<subseteq> S" if row: "row \<in> set arr" for row
  proof -
    have "set c \<subseteq> S" if "c \<in> set row" for c
      using cell_blank_or_value [OF g(4,5) cells row that] assms by auto
    then show ?thesis by auto
  qed
  have "set (join [CHR 0x0A] (map concat arr)) \<subseteq> set [CHR 0x0A] \<union> \<Union> (set ` set (map concat arr))"
    by (rule join_set)
  also have "\<dots> \<subseteq> insert (CHR 0x0A) S"
    using rows by auto
  finally show ?thesis
    using grid_text_of_arr [OF g(3)] by simp
qed

text \<open>
  C4, as amended. From the text of the OCR the value extractor takes the first maximal
  run of decimal digits, whole: one digit or more, the digit 0 included. When the text
  has no digit the value is \<open>"?"\<close>. Every value is therefore a non-empty string over the
  digits and \<open>?\<close>, and every character of the text of the grid is a digit 0 to 9, \<open>?\<close>,
  a blank, or the newline that separates two rows.
\<close>

theorem value_is_first_digit_run:
  "((\<exists>c \<in> set text. is_digit c) \<longrightarrow>
      (\<exists>pre post. text = pre @ extract_v text @ post \<and> (\<forall>c \<in> set pre. \<not> is_digit c) \<and>
         extract_v text \<noteq> [] \<and> (\<forall>c \<in> set (extract_v text). is_digit c) \<and>
         (case post of [] \<Rightarrow> True | c # cs \<Rightarrow> \<not> is_digit c)))
   \<and> ((\<forall>c \<in> set text. \<not> is_digit c) \<longrightarrow> extract_v text = ''?'')
   \<and> (\<forall>v \<in> set (extract_values recognize rectangles).
         set (val_v v) \<subseteq> set ''0123456789?'' \<and> val_v v \<noteq> [])
   \<and> (\<exists>str. grid_text (extract_values recognize rectangles) = Some (Inr str) \<and>
         set str \<subseteq> insert (CHR 0x0A) (set ''0123456789? ''))"
proof (intro conjI impI)
  assume "\<exists>c \<in> set text. is_digit c"
  then show "\<exists>pre post. text = pre @ extract_v text @ post \<and> (\<forall>c \<in> set pre. \<not> is_digit c) \<and>
         extract_v text \<noteq> [] \<and> (\<forall>c \<in> set (extract_v text). is_digit c) \<and>
         (case post of [] \<Rightarrow> True | c # cs \<Rightarrow> \<not> is_digit c)"
    by (rule extract_v_digit_run)
next
  assume "\<forall>c \<in> set text. \<not> is_digit c"
  then show "extract_v text = ''?''"
    by (rule extract_v_no_digit)
next
  show "\<forall>v \<in> set (extract_values recognize rectangles).
         set (val_v v) \<subseteq> set ''0123456789?'' \<and> val_v v \<noteq> []"
    by (rule ballI) (rule extract_values_chars)
next
  have "\<forall>v \<in> set (extract_values recognize rectangles). set (val_v v) \<subseteq> set ''0123456789? ''"
  proof
    fix v assume "v \<in> set (extract_values recognize rectangles)"
    then have "set (val_v v) \<subseteq> set ''0123456789?''"
      by (rule extract_values_chars [THEN conjunct1])
    then show "set (val_v v) \<subseteq> set ''0123456789? ''"
      using alphabet_subset by (rule order_trans)
  qed
  then show "\<exists>str. grid_text (extract_values recognize rectangles) = Some (Inr str) \<and>
         set str \<subseteq> insert (CHR 0x0A) (set ''0123456789? '')"
    by (rule grid_text_chars) simp
qed

theorem value_is_first_digit_run_witness:
  "list_ex is_digit ''a10b22'' \<and> extract_v ''a10b22'' = ''10''
   \<and> list_all (\<lambda>c. \<not> is_digit c) ''B?'' \<and> extract_v ''B?'' = ''?''
   \<and> (\<exists>pre post. ''a10b22'' = pre @ extract_v ''a10b22'' @ post)"
proof -
  have d: "\<exists>c \<in> set ''a10b22''. is_digit c"
    by (simp add: is_digit_def)
  have n: "\<forall>c \<in> set ''B?''. \<not> is_digit c"
    by (simp add: is_digit_def)
  have e: "extract_v ''a10b22'' = ''10''"
    by code_simp
  have "extract_v ''B?'' = ''?''"
    using value_is_first_digit_run [of "''B?''"] n by blast
  moreover have "\<exists>pre post. ''a10b22'' = pre @ extract_v ''a10b22'' @ post"
    using value_is_first_digit_run [of "''a10b22''"] d by blast
  ultimately show ?thesis
    using d n e by (simp add: list_ex_iff list_all_iff)
qed

theorem multi_digit_value_counterexample:
  "extract_v ''10'' = ''10''
   \<and> length (extract_v ''10'') = 2
   \<and> grid_text [\<lparr>val_x = 0, val_y = 0, val_v = extract_v ''10''\<rparr>] = Some (Inr ''10'')
   \<and> CHR ''0'' \<in> set ''10'' \<and> CHR ''0'' \<notin> set ''123456789? ''"
  by code_simp

end
